theory Spec2Isabelle
  imports Complex_Main "HOL-Library.Log_Nat" "HOL-Library.Monad_Syntax"
begin

section \<open>Front-end helpers of \<^verbatim>\<open>shared/utils/helpers.js\<close>\<close>

text \<open>
  The development embeds the helper functions of
  \<^verbatim>\<open>contentcuration/frontend/shared/utils/helpers.js\<close>: the page-fit scale of the PDF
  exporter, the three array helpers (on values as trees, and again on a store of objects
  for what they share with their input), the batch-promise sequencer, the animation-frame
  throttle and the DOM walk of the exporter with its text branch. The definitions come
  first, the properties after them.
\<close>

subsection \<open>JavaScript numbers\<close>

text \<open>
  A JavaScript number is an IEEE 754 double: a finite value, a zero of either sign, an
  infinity of either sign, or NaN. The finite doubles are the rationals \<open>m * 2 ^ e\<close> with
  \<open>\<bar>m\<bar> < 2 ^ 53\<close> and \<open>- 1074 \<le> e \<le> 971\<close>. \<open>Finite 0\<close> is the positive zero, \<open>NegZero\<close> the
  negative one.
\<close>

datatype jsnum = Finite rat | NegZero | NaN | PosInfinity | NegInfinity

text \<open>
  The result of an arithmetic operation is its exact result rounded to the nearest double,
  a tie going to the even significand. For a positive rational \<open>q\<close>, \<open>binade q\<close> is the
  exponent of the largest power of two at most \<open>q\<close>; the spacing of the doubles around \<open>q\<close>
  is \<open>2\<close> to the power \<open>ulp_exponent q\<close>, which stops decreasing in the subnormal range;
  \<open>nearest q\<close> is the multiple of that spacing nearest to \<open>q\<close>. A rounded magnitude of
  \<open>2 ^ 1024\<close> or more is an infinity.
\<close>

definition binade :: "rat \<Rightarrow> int" where
  "binade q = (case quotient_of q of (a, b) \<Rightarrow>
     (let d = bitlen a - bitlen b in if q < 2 powi d then d - 1 else d))"

definition round_half_even :: "rat \<Rightarrow> int" where
  "round_half_even x = (let f = \<lfloor>x\<rfloor>; r = x - of_int f in
     if r < 1 / 2 then f else if 1 / 2 < r then f + 1 else if even f then f else f + 1)"

definition ulp_exponent :: "rat \<Rightarrow> int" where
  "ulp_exponent q = max (binade q) (- 1022) - 52"

definition nearest :: "rat \<Rightarrow> rat" where
  "nearest q = of_int (round_half_even (q / 2 powi ulp_exponent q)) * 2 powi ulp_exponent q"

definition fl :: "rat \<Rightarrow> jsnum" where
  "fl q = (let v = nearest \<bar>q\<bar> in
     if 2 powi 1024 \<le> v then (if q < 0 then NegInfinity else PosInfinity)
     else if q < 0 then (if v = 0 then NegZero else Finite (- v))
     else Finite v)"

text \<open>The rationals that are doubles: rounding leaves them as they are.\<close>

definition is_double :: "rat \<Rightarrow> bool" where
  "is_double q \<longleftrightarrow> fl q = Finite q"

text \<open>
  Division and the comparison \<^verbatim>\<open><\<close>, with the special values: NaN is the quotient of two
  zeros or of two infinities and compares false with everything; a quotient by zero is an
  infinity; the sign of a zero or an infinity is the product of the signs; the two zeros
  compare equal.
\<close>

fun finite_value :: "jsnum \<Rightarrow> rat option" where
  "finite_value (Finite q) = Some q"
| "finite_value NegZero = Some 0"
| "finite_value x = None"

fun sign_bit :: "jsnum \<Rightarrow> bool" where
  "sign_bit (Finite q) = (q < 0)"
| "sign_bit NegZero = True"
| "sign_bit NegInfinity = True"
| "sign_bit x = False"

definition signed_zero :: "bool \<Rightarrow> jsnum" where
  "signed_zero negative = (if negative then NegZero else Finite 0)"

definition signed_infinity :: "bool \<Rightarrow> jsnum" where
  "signed_infinity negative = (if negative then NegInfinity else PosInfinity)"

definition js_div :: "jsnum \<Rightarrow> jsnum \<Rightarrow> jsnum" where
  "js_div x y =
     (if x = NaN \<or> y = NaN then NaN
      else (case (finite_value x, finite_value y) of
              (None, None) \<Rightarrow> NaN
            | (None, Some b) \<Rightarrow> signed_infinity (sign_bit x \<noteq> sign_bit y)
            | (Some a, None) \<Rightarrow> signed_zero (sign_bit x \<noteq> sign_bit y)
            | (Some a, Some b) \<Rightarrow>
                (if b = 0 then (if a = 0 then NaN else signed_infinity (sign_bit x \<noteq> sign_bit y))
                 else if a = 0 then signed_zero (sign_bit x \<noteq> sign_bit y)
                 else fl (a / b))))"

fun js_lt :: "jsnum \<Rightarrow> jsnum \<Rightarrow> bool" where
  "js_lt NaN y = False"
| "js_lt x NaN = False"
| "js_lt PosInfinity y = False"
| "js_lt x NegInfinity = False"
| "js_lt NegInfinity y = True"
| "js_lt x PosInfinity = True"
| "js_lt (Finite a) (Finite b) = (a < b)"
| "js_lt (Finite a) NegZero = (a < 0)"
| "js_lt NegZero (Finite b) = (0 < b)"
| "js_lt NegZero NegZero = False"

subsection \<open>Page-fit scale (\<^verbatim>\<open>fitToScale\<close>)\<close>

text \<open>The bounding rectangle of the element, as \<^verbatim>\<open>getBoundingClientRect\<close> gives it.\<close>

record rect =
  left :: jsnum
  top :: jsnum
  width :: jsnum
  height :: jsnum

definition pageWidth :: jsnum where
  "pageWidth = Finite 612"

definition pageHeight :: jsnum where
  "pageHeight = Finite 792"

text \<open>
  \<^verbatim>\<open>fitToScale(boundingRect, scale = 1)\<close>: two tests in sequence, the height first, the
  second test on the scale the first one left. Each division rounds.
\<close>

definition fitToScale :: "rect \<Rightarrow> jsnum \<Rightarrow> jsnum" where
  "fitToScale boundingRect scale0 =
     (let scale1 = (if js_lt (js_div pageHeight scale0) (height boundingRect)
                    then js_div pageHeight (height boundingRect) else scale0);
          scale2 = (if js_lt (js_div pageWidth scale1) (width boundingRect)
                    then js_div pageWidth (width boundingRect) else scale1)
      in scale2)"

subsection \<open>JavaScript values and the JSON round trip\<close>

text \<open>
  The array helpers copy their input with \<^verbatim>\<open>JSON.parse(JSON.stringify(arr))\<close>. Values are
  modelled as trees (no sharing, no cycles): enough for what the helpers return as a
  sequence of elements. A hole of a sparse array reads as \<open>JUndefined\<close> and is written so.
  The fields of an object are listed in the object's own property order, keys distinct.
\<close>

datatype jsval =
    JUndefined
  | JNull
  | JBool bool
  | JNum jsnum
  | JStr string
  | JFun nat
  | JArr "jsval list"
  | JObj "(string \<times> jsval) list"

text \<open>The syntax tree of a JSON text.\<close>

datatype json =
    TNull
  | TBool bool
  | TNumber rat
  | TString string
  | TArray "json list"
  | TObject "(string \<times> json) list"

text \<open>
  An array element that serialises to nothing (\<^verbatim>\<open>undefined\<close>, a function) is written
  \<^verbatim>\<open>null\<close>; an object field that serialises to nothing is left out.
\<close>

definition array_slot :: "json option \<Rightarrow> json" where
  "array_slot r = (case r of None \<Rightarrow> TNull | Some j \<Rightarrow> j)"

definition object_slot :: "string \<Rightarrow> json option \<Rightarrow> (string \<times> json) list" where
  "object_slot k r = (case r of None \<Rightarrow> [] | Some j \<Rightarrow> [(k, j)])"

text \<open>
  \<^verbatim>\<open>JSON.stringify\<close>; \<open>None\<close> is the result \<^verbatim>\<open>undefined\<close>. A non-finite number is written
  \<^verbatim>\<open>null\<close>, negative zero is written \<^verbatim>\<open>0\<close>.
\<close>

fun JSON_stringify :: "jsval \<Rightarrow> json option" where
  "JSON_stringify JUndefined = None"
| "JSON_stringify JNull = Some TNull"
| "JSON_stringify (JBool b) = Some (TBool b)"
| "JSON_stringify (JNum (Finite r)) = Some (TNumber r)"
| "JSON_stringify (JNum NegZero) = Some (TNumber 0)"
| "JSON_stringify (JNum NaN) = Some TNull"
| "JSON_stringify (JNum PosInfinity) = Some TNull"
| "JSON_stringify (JNum NegInfinity) = Some TNull"
| "JSON_stringify (JStr s) = Some (TString s)"
| "JSON_stringify (JFun f) = None"
| "JSON_stringify (JArr vs) = Some (TArray (map (\<lambda>v. array_slot (JSON_stringify v)) vs))"
| "JSON_stringify (JObj fs) =
     Some (TObject (concat (map (\<lambda>kv. object_slot (fst kv) (JSON_stringify (snd kv))) fs)))"

fun JSON_parse :: "json \<Rightarrow> jsval" where
  "JSON_parse TNull = JNull"
| "JSON_parse (TBool b) = JBool b"
| "JSON_parse (TNumber r) = JNum (Finite r)"
| "JSON_parse (TString s) = JStr s"
| "JSON_parse (TArray js) = JArr (map JSON_parse js)"
| "JSON_parse (TObject fs) = JObj (map (\<lambda>kj. (fst kj, JSON_parse (snd kj))) fs)"

text \<open>
  The copy of one array element, and of the element sequence of an array:
  \<open>JSON_copy arr\<close> is the element sequence of \<^verbatim>\<open>JSON.parse(JSON.stringify(arr))\<close>
  (lemma \<open>JSON_roundtrip_array\<close> below).
\<close>

definition copy_element :: "jsval \<Rightarrow> jsval" where
  "copy_element v = JSON_parse (array_slot (JSON_stringify v))"

definition JSON_copy :: "jsval list \<Rightarrow> jsval list" where
  "JSON_copy arr = map copy_element arr"

subsection \<open>Array indexing and \<^verbatim>\<open>splice\<close>\<close>

text \<open>
  Indices are integers. An array index is an integer from 0 to \<open>2^32 - 2\<close>; any other
  key names a plain property of the array object, which is not an element: reading it
  from a fresh copy gives \<^verbatim>\<open>undefined\<close>, writing it leaves the elements as they are.
  Reading past the end gives \<^verbatim>\<open>undefined\<close>; writing past the end extends the array, the
  positions in between being holes. The first argument of \<open>js_get\<close> and \<open>js_set\<close> is
  the value \<^verbatim>\<open>undefined\<close> of the value type at hand.
\<close>

definition is_array_index :: "int \<Rightarrow> bool" where
  "is_array_index i = (0 \<le> i \<and> i < 2 ^ 32 - 1)"

definition js_get :: "'a \<Rightarrow> 'a list \<Rightarrow> int \<Rightarrow> 'a" where
  "js_get undef xs i =
     (if is_array_index i \<and> i < int (length xs) then xs ! nat i else undef)"

definition js_set :: "'a \<Rightarrow> 'a list \<Rightarrow> int \<Rightarrow> 'a \<Rightarrow> 'a list" where
  "js_set undef xs i v =
     (if \<not> is_array_index i then xs
      else if i < int (length xs) then xs[nat i := v]
      else xs @ replicate (nat i - length xs) undef @ [v])"

text \<open>
  \<^verbatim>\<open>xs.splice(start, 0, item)\<close>: a negative start counts from the end, and the start is
  clamped to the range from 0 to the length.
\<close>

definition splice_insert :: "'a list \<Rightarrow> int \<Rightarrow> 'a \<Rightarrow> 'a list" where
  "splice_insert xs start item =
     (let len = int (length xs);
          actualStart = (if start < 0 then max (len + start) 0 else min start len)
      in take (nat actualStart) xs @ [item] @ drop (nat actualStart) xs)"

subsection \<open>The array helpers\<close>

definition insertBefore :: "jsval list \<Rightarrow> int \<Rightarrow> jsval \<Rightarrow> jsval list" where
  "insertBefore arr idx item =
     (let newArr = JSON_copy arr;
          insertAt = max 0 idx
      in splice_insert newArr insertAt item)"

definition insertAfter :: "jsval list \<Rightarrow> int \<Rightarrow> jsval \<Rightarrow> jsval list" where
  "insertAfter arr idx item =
     (let newArr = JSON_copy arr;
          insertAt = min (int (length arr)) (idx + 1)
      in splice_insert newArr insertAt item)"

text \<open>
  \<^verbatim>\<open>[newArr[idx1], newArr[idx2]] = [newArr[idx2], newArr[idx1]]\<close>: both reads come first,
  then the write at \<open>idx1\<close>, then the write at \<open>idx2\<close>.
\<close>

definition swapElements :: "jsval list \<Rightarrow> int \<Rightarrow> int \<Rightarrow> jsval list" where
  "swapElements arr idx1 idx2 =
     (let newArr = JSON_copy arr;
          v1 = js_get JUndefined newArr idx2;
          v2 = js_get JUndefined newArr idx1;
          newArr1 = js_set JUndefined newArr idx1 v1
      in js_set JUndefined newArr1 idx2 v2)"

text \<open>What the specification says an insertion is: \<open>x\<close> put at position \<open>p\<close> of \<open>s\<close>.\<close>

definition inserted_at :: "'a list \<Rightarrow> nat \<Rightarrow> 'a \<Rightarrow> 'a list" where
  "inserted_at s p x = take p s @ [x] @ drop p s"

text \<open>A sequence that the JSON round trip gives back unchanged.\<close>

definition json_representable :: "jsval list \<Rightarrow> bool" where
  "json_representable s = (JSON_copy s = s)"

subsection \<open>Promises and the callback\<close>

text \<open>
  A promise is modelled by what running it to its settlement does to the world: it
  ends fulfilled with a value, rejected with a reason, or it never settles (\<open>Pending\<close>).
  The world holds the state the callback works on and the trace of what happened to the
  callback: an \<open>Invoked\<close> event when it is called on a group, a \<open>Settled\<close> event when
  the promise it returned settles.
\<close>

datatype 'r settled = Fulfilled 'r | Rejected jsval | Pending

datatype event = Invoked "jsval list" | Settled "jsval list" "jsval settled"

record 's world =
  cb_state :: 's
  trace :: "event list"

type_synonym ('s, 'r) promise = "'s world \<Rightarrow> 'r settled \<times> 's world"

definition Promise_resolve :: "'r \<Rightarrow> ('s, 'r) promise" where
  "Promise_resolve v = (\<lambda>w. (Fulfilled v, w))"

text \<open>
  \<^verbatim>\<open>promise.then(onFulfilled)\<close>: the handler runs once the promise is fulfilled; a
  rejection passes through, and nothing runs after a promise that never settles.
\<close>

definition promise_then ::
  "('s, 'a) promise \<Rightarrow> ('a \<Rightarrow> ('s, 'b) promise) \<Rightarrow> ('s, 'b) promise" where
  "promise_then p onFulfilled =
     (\<lambda>w. case p w of
             (Fulfilled r, w') \<Rightarrow> onFulfilled r w'
           | (Rejected e, w') \<Rightarrow> (Rejected e, w')
           | (Pending, w') \<Rightarrow> (Pending, w'))"

text \<open>
  The callback takes a group and the state it finds, and gives the settlement of the
  promise it returns with the state it leaves. A callback that throws is one whose
  promise is rejected.
\<close>

type_synonym 's callback = "jsval list \<Rightarrow> 's \<Rightarrow> jsval settled \<times> 's"

definition settle_events :: "jsval list \<Rightarrow> jsval settled \<Rightarrow> event list" where
  "settle_events thingChunk out =
     (case out of Pending \<Rightarrow> [] | _ \<Rightarrow> [Settled thingChunk out])"

definition invoke :: "'s callback \<Rightarrow> jsval list \<Rightarrow> ('s, jsval) promise" where
  "invoke callback thingChunk =
     (\<lambda>w. case callback thingChunk (cb_state w) of
             (out, s') \<Rightarrow>
               (out, \<lparr>cb_state = s',
                      trace = trace w @ Invoked thingChunk # settle_events thingChunk out\<rparr>))"

text \<open>\<^verbatim>\<open>results.concat(v)\<close>: the elements of an array are appended, any other value is
  appended as one element.\<close>

definition array_concat :: "jsval list \<Rightarrow> jsval \<Rightarrow> jsval list" where
  "array_concat results v = (case v of JArr xs \<Rightarrow> results @ xs | _ \<Rightarrow> results @ [v])"

subsection \<open>\<^verbatim>\<open>chunk\<close>\<close>

text \<open>
  Modelled from the spec: \<^verbatim>\<open>chunk\<close> is imported from \<^verbatim>\<open>lodash/chunk\<close>, which is not among
  the sources. It partitions the list into consecutive groups of \<open>size\<close> elements, the
  last group possibly smaller, as the specification says of \<open>promiseChunk\<close>; lodash
  returns no group at all for an empty list or a size below 1, and only then enters its
  loop, so the loop here runs only for a positive size. The size is an integer.
\<close>

definition baseSlice :: "'a list \<Rightarrow> nat \<Rightarrow> nat \<Rightarrow> 'a list" where
  "baseSlice array start end = take (end - start) (drop start array)"

function chunk_loop :: "'a list \<Rightarrow> nat \<Rightarrow> nat \<Rightarrow> 'a list list" where
  "chunk_loop array sz index =
     (if index < length array \<and> 0 < sz
      then baseSlice array index (index + sz) # chunk_loop array sz (index + sz)
      else [])"
  by pat_completeness auto
termination
  by (relation "measure (\<lambda>(array, sz, index). length array - index)") auto

declare chunk_loop.simps [simp del]

definition chunk :: "'a list \<Rightarrow> int \<Rightarrow> 'a list list" where
  "chunk array size0 =
     (let sz = max size0 0
      in if length array = 0 \<or> sz < 1 then [] else chunk_loop array (nat sz) 0)"

subsection \<open>\<^verbatim>\<open>promiseChunk\<close>\<close>

text \<open>
  The function handed to \<^verbatim>\<open>reduce\<close>: after the promise so far, call the callback on the
  group, and after the promise it returned, append its results.
\<close>

definition reducer ::
  "'s callback \<Rightarrow> ('s, jsval list) promise \<Rightarrow> jsval list \<Rightarrow> ('s, jsval list) promise" where
  "reducer callback promise thingChunk =
     promise_then promise (\<lambda>results.
       promise_then (invoke callback thingChunk) (\<lambda>chunkResults.
         Promise_resolve (array_concat results chunkResults)))"

definition promiseChunk :: "jsval list \<Rightarrow> int \<Rightarrow> 's callback \<Rightarrow> ('s, jsval list) promise" where
  "promiseChunk things chunkSize callback =
     (if length things = 0 then Promise_resolve []
      else foldl (reducer callback) (Promise_resolve []) (chunk things chunkSize))"

text \<open>
  What the specification says of the groups, to compare \<open>promiseChunk\<close> with: the
  callback run on one group after the other, each on the state the one before left, as
  long as every promise is fulfilled; the results of the groups, in order.
\<close>

fun run_groups :: "'s callback \<Rightarrow> jsval list list \<Rightarrow> 's \<Rightarrow> (jsval list \<times> 's) option" where
  "run_groups callback [] s = Some ([], s)"
| "run_groups callback (g # gs) s =
     (case callback g s of
        (Fulfilled v, s') \<Rightarrow>
          (case run_groups callback gs s' of
             Some (vs, s'') \<Rightarrow> Some (v # vs, s'')
           | None \<Rightarrow> None)
      | (Rejected e, s') \<Rightarrow> None
      | (Pending, s') \<Rightarrow> None)"

definition spread :: "jsval \<Rightarrow> jsval list" where
  "spread v = (case v of JArr xs \<Rightarrow> xs | _ \<Rightarrow> [v])"

text \<open>The events of one group whose promise is fulfilled, and the groups a trace invokes.\<close>

definition group_events :: "jsval list \<Rightarrow> jsval \<Rightarrow> event list" where
  "group_events g v = [Invoked g, Settled g (Fulfilled v)]"

definition invoked_groups :: "event list \<Rightarrow> jsval list list" where
  "invoked_groups evs =
     concat (map (\<lambda>ev. case ev of Invoked g \<Rightarrow> [g] | Settled g out \<Rightarrow> []) evs)"

subsection \<open>\<^verbatim>\<open>animationThrottle\<close>\<close>

text \<open>
  The functions held in \<^verbatim>\<open>lastCallback\<close> and handed to \<^verbatim>\<open>requestAnimationFrame\<close>: the
  initial \<^verbatim>\<open>() => {}\<close>, or the closure a call of the wrapper creates, which holds the
  arguments of that call. Running the closure calls \<^verbatim>\<open>callback\<close> with those arguments and
  clears \<^verbatim>\<open>animationFrameId\<close>.
\<close>

datatype frame_callback = Noop | Run "jsval list"

text \<open>
  The two variables of the closure, the browser's list of pending animation frame
  callbacks with its handle counter, and the calls of \<^verbatim>\<open>callback\<close> so far, each with its
  arguments. The callback itself is opaque: it does not call the wrapper.
\<close>

record throttle_state =
  animationFrameId :: "nat option"
  lastCallback :: frame_callback
  frame_requests :: "(nat \<times> frame_callback) list"
  frame_handle :: nat
  calls :: "jsval list list"

text \<open>\<^verbatim>\<open>if (animationFrameId)\<close>: \<^verbatim>\<open>null\<close> and 0 are falsy.\<close>

definition truthy_id :: "nat option \<Rightarrow> bool" where
  "truthy_id i = (case i of None \<Rightarrow> False | Some h \<Rightarrow> h \<noteq> 0)"

text \<open>The browser: handles count up from the one before, so a handle is never 0.\<close>

definition requestAnimationFrame ::
  "frame_callback \<Rightarrow> throttle_state \<Rightarrow> nat \<times> throttle_state" where
  "requestAnimationFrame cb st =
     (let handle = frame_handle st + 1
      in (handle, st\<lparr>frame_handle := handle,
                     frame_requests := frame_requests st @ [(handle, cb)]\<rparr>))"

definition cancelAnimationFrame :: "nat \<Rightarrow> throttle_state \<Rightarrow> throttle_state" where
  "cancelAnimationFrame handle st =
     st\<lparr>frame_requests := filter (\<lambda>r. fst r \<noteq> handle) (frame_requests st)\<rparr>"

definition run_frame_callback :: "frame_callback \<Rightarrow> throttle_state \<Rightarrow> throttle_state" where
  "run_frame_callback cb st =
     (case cb of
        Noop \<Rightarrow> st
      | Run args \<Rightarrow> st\<lparr>calls := calls st @ [args], animationFrameId := None\<rparr>)"

text \<open>The display-refresh tick: the pending callbacks are taken off the list and run.\<close>

definition animation_frame :: "throttle_state \<Rightarrow> throttle_state" where
  "animation_frame st =
     foldl (\<lambda>st' r. run_frame_callback (snd r) st') (st\<lparr>frame_requests := []\<rparr>)
       (frame_requests st)"

text \<open>The state right after \<^verbatim>\<open>animationThrottle(callback)\<close>, nothing pending.\<close>

definition animationThrottle :: "nat \<Rightarrow> throttle_state" where
  "animationThrottle handle0 =
     \<lparr>animationFrameId = None, lastCallback = Noop, frame_requests = [],
      frame_handle = handle0, calls = []\<rparr>"

definition throttled :: "jsval list \<Rightarrow> throttle_state \<Rightarrow> throttle_state" where
  "throttled args st =
     (let st1 = st\<lparr>lastCallback := Run args\<rparr>
      in if truthy_id (animationFrameId st1) then st1
         else (case requestAnimationFrame (lastCallback st1) st1 of
                 (handle, st2) \<Rightarrow> st2\<lparr>animationFrameId := Some handle\<rparr>))"

definition cancel :: "throttle_state \<Rightarrow> throttle_state" where
  "cancel st =
     (case animationFrameId st of
        None \<Rightarrow> st
      | Some handle \<Rightarrow>
          if handle \<noteq> 0 then (cancelAnimationFrame handle st)\<lparr>animationFrameId := None\<rparr>
          else st)"

definition flush :: "throttle_state \<Rightarrow> throttle_state" where
  "flush st = (let st1 = cancel st in run_frame_callback (lastCallback st1) st1)"

text \<open>The wrapper invoked several times in a row, with the given arguments in turn.\<close>

definition throttled_calls :: "jsval list list \<Rightarrow> throttle_state \<Rightarrow> throttle_state" where
  "throttled_calls argss st = foldl (\<lambda>st' args. throttled args st') st argss"

subsection \<open>The DOM walk of \<^verbatim>\<open>generatePdf\<close>\<close>

text \<open>
  What \<^verbatim>\<open>insertText\<close> and \<^verbatim>\<open>recurseNodes\<close> read of a node: the flag of the
  \<^verbatim>\<open>capture-as-image\<close> attribute, the inner text as UTF-16 code units, the tag name, the
  computed style, and the child elements (their number is \<^verbatim>\<open>childElementCount\<close>). A
  computed \<^verbatim>\<open>font-weight\<close> is a string that \<^verbatim>\<open>Number\<close> reads as a number, or one it reads
  as NaN. The computed \<^verbatim>\<open>direction\<close> is \<^verbatim>\<open>rtl\<close> in a right-to-left context; the code
  never reads it.
\<close>

datatype font_weight = Weight rat | Keyword string

record computed_style =
  font_family :: string
  font_style :: string
  text_align :: string
  weight :: font_weight
  direction :: string

record node =
  capture_as_image :: bool
  innerText :: "nat list"
  tagName :: string
  style :: computed_style

datatype dom = Element node "dom list"

text \<open>
  What \<open>insertText\<close> hands to the document from the style: the font and font style of
  \<^verbatim>\<open>doc.setFont\<close> and the \<^verbatim>\<open>align\<close> option of \<^verbatim>\<open>doc.text\<close>. The numeric arguments (font
  size, position, maximal width) are left out. \<open>fontList\<close> lists the fonts of the
  document with their styles, in key order; with no font at all the font is
  \<^verbatim>\<open>undefined\<close>.
\<close>

record pdf_text =
  font :: "string option"
  fontStyle :: string
  align :: string

definition resolved_weight :: "font_weight \<Rightarrow> string" where
  "resolved_weight fw =
     (case fw of
        Weight n \<Rightarrow> (if 400 < n then ''bold'' else ''normal'')
      | Keyword k \<Rightarrow> (if k = ''bolder'' then ''bold''
                      else if k = ''lighter'' then ''normal''
                      else k))"

definition insertText :: "(string \<times> string list) list \<Rightarrow> node \<Rightarrow> bool \<Rightarrow> pdf_text" where
  "insertText fontList nd isRtl =
     (let st = style nd;
          fnt = (if font_family st \<in> set (map fst fontList) then Some (font_family st)
                 else (case fontList of [] \<Rightarrow> None | f # _ \<Rightarrow> Some (fst f)));
          fontWeight = resolved_weight (weight st);
          computedFontStyle =
            (if font_style st = ''normal''
             then (if fontWeight = ''normal'' then ''normal'' else ''bold'')
             else (if fontWeight = ''normal'' then ''italic'' else ''bolditalic''));
          al = (if text_align st = ''start'' then (if isRtl then ''right'' else ''left'')
                else if text_align st = ''end'' then (if isRtl then ''left'' else ''right'')
                else text_align st)
      in \<lparr>font = fnt, fontStyle = computedFontStyle, align = al\<rparr>)"

text \<open>
  \<^verbatim>\<open>recurseNodes\<close>: the children first, unless the node is captured as an image, then the
  node itself. The result lists what is drawn, with the node it is drawn for; the two
  image-element branches (SVG or not) are one case here. The text branch calls
  \<^verbatim>\<open>insertText\<close> with seven arguments, so \<^verbatim>\<open>isRtl\<close> takes its default \<^verbatim>\<open>false\<close>.
\<close>

datatype drawing = CapturedImage | NonUnicodeImage | NativeText pdf_text | ImageElement

fun recurseNodes :: "(string \<times> string list) list \<Rightarrow> dom \<Rightarrow> (node \<times> drawing) list" where
  "recurseNodes fontList (Element nd children) =
     (if children \<noteq> [] \<and> \<not> capture_as_image nd
      then concat (map (recurseNodes fontList) children) else [])
     @ (let isText = (length children = 0 \<and> innerText nd \<noteq> []);
            isNonUnicode = (isText \<and> list_ex (\<lambda>c. 255 < c) (innerText nd))
        in if capture_as_image nd then [(nd, CapturedImage)]
           else if isNonUnicode then [(nd, NonUnicodeImage)]
           else if isText then [(nd, NativeText (insertText fontList nd False))]
           else if tagName nd = ''IMG'' then [(nd, ImageElement)]
           else [])"

text \<open>The alignment the specification asks for, by the direction of the node.\<close>

definition honoured_align :: "computed_style \<Rightarrow> string" where
  "honoured_align st =
     (if text_align st = ''start'' then (if direction st = ''rtl'' then ''right'' else ''left'')
      else if text_align st = ''end'' then (if direction st = ''rtl'' then ''left'' else ''right'')
      else text_align st)"

subsection \<open>The array helpers on a store\<close>

text \<open>
  Whether the result of a helper shares objects with its input is a question about object
  identity, which trees do not have. Here arrays, plain objects and functions live in a
  store, a list of objects whose positions are the addresses; a value is a primitive or
  the address of an object. Allocation appends to the store, so an address at or beyond
  the length of the store before a call is fresh.
\<close>

type_synonym addr = nat

datatype val = VUndefined | VNull | VBool bool | VNum jsnum | VStr string | VRef addr

datatype obj = OArr "val list" | OObj "(string \<times> val) list" | OFun

type_synonym store = "obj list"

text \<open>
  The exceptions: \<^verbatim>\<open>JSON.stringify\<close> throws a TypeError on a cyclic structure, \<^verbatim>\<open>JSON.parse\<close>
  a SyntaxError on \<^verbatim>\<open>undefined\<close>, and \<^verbatim>\<open>splice\<close> is not a function of a value that is
  not an array. \<open>NotASequence\<close> marks the one input the model leaves out: \<^verbatim>\<open>swapElements\<close>
  on a value that is not an array.
\<close>

datatype error = TypeError | SyntaxError | NotASequence

fun collect :: "(error + 'a) list \<Rightarrow> error + 'a list" where
  "collect [] = Inr []"
| "collect (Inl e # rs) = Inl e"
| "collect (Inr x # rs) = (case collect rs of Inl e \<Rightarrow> Inl e | Inr xs \<Rightarrow> Inr (x # xs))"

text \<open>
  \<^verbatim>\<open>JSON.stringify\<close> on the store, with the stack of the objects being written: an object met
  again below itself is a cycle. (An address outside the store does not occur in the
  store of a program; it is made an error as well.) The result is as in \<open>JSON_stringify\<close>:
  \<open>None\<close> is \<^verbatim>\<open>undefined\<close>.
\<close>

function serialize :: "store \<Rightarrow> addr list \<Rightarrow> val \<Rightarrow> error + json option" where
  "serialize h stack VUndefined = Inr None"
| "serialize h stack VNull = Inr (Some TNull)"
| "serialize h stack (VBool b) = Inr (Some (TBool b))"
| "serialize h stack (VNum n) = Inr (JSON_stringify (JNum n))"
| "serialize h stack (VStr s) = Inr (Some (TString s))"
| "serialize h stack (VRef a) =
     (if a \<in> set stack \<or> length h \<le> a then Inl TypeError
      else (case h ! a of
              OFun \<Rightarrow> Inr None
            | OArr vs \<Rightarrow>
                (case collect (map (serialize h (a # stack)) vs) of
                   Inl e \<Rightarrow> Inl e
                 | Inr rs \<Rightarrow> Inr (Some (TArray (map array_slot rs))))
            | OObj fs \<Rightarrow>
                (case collect (map (\<lambda>kv. serialize h (a # stack) (snd kv)) fs) of
                   Inl e \<Rightarrow> Inl e
                 | Inr rs \<Rightarrow>
                     Inr (Some (TObject (concat (map2 object_slot (map fst fs) rs))))))) "
  by pat_completeness auto
termination
proof -
  have unvisited: "card ({..<n} - set (a # stack)) < card ({..<n} - set stack)"
    if "\<not> (a \<in> set stack \<or> n \<le> a)" for a n :: nat and stack
  proof -
    have "{..<n} - set (a # stack) = ({..<n} - set stack) - {a}" by auto
    moreover have "a \<in> {..<n} - set stack" using that by auto
    moreover have "finite ({..<n} - set stack)" by simp
    ultimately show ?thesis by (simp only: card_Diff1_less)
  qed
  show ?thesis
    by (relation "measure (\<lambda>(h, stack, v). card ({..<length h} - set stack))")
       (simp_all add: unvisited del: set_simps)
qed

text \<open>\<^verbatim>\<open>JSON.parse\<close> on the store: every array and object of the text is allocated.\<close>

fun materialize :: "json \<Rightarrow> store \<Rightarrow> val \<times> store"
  and materialize_list :: "json list \<Rightarrow> store \<Rightarrow> val list \<times> store"
  and materialize_fields :: "(string \<times> json) list \<Rightarrow> store \<Rightarrow> (string \<times> val) list \<times> store"
where
  "materialize TNull h = (VNull, h)"
| "materialize (TBool b) h = (VBool b, h)"
| "materialize (TNumber r) h = (VNum (Finite r), h)"
| "materialize (TString s) h = (VStr s, h)"
| "materialize (TArray js) h =
     (case materialize_list js h of (vs, h') \<Rightarrow> (VRef (length h'), h' @ [OArr vs]))"
| "materialize (TObject fs) h =
     (case materialize_fields fs h of (kvs, h') \<Rightarrow> (VRef (length h'), h' @ [OObj kvs]))"
| "materialize_list [] h = ([], h)"
| "materialize_list (j # js) h =
     (case materialize j h of (v, h1) \<Rightarrow>
        (case materialize_list js h1 of (vs, h2) \<Rightarrow> (v # vs, h2)))"
| "materialize_fields [] h = ([], h)"
| "materialize_fields (kj # fs) h =
     (case materialize (snd kj) h of (v, h1) \<Rightarrow>
        (case materialize_fields fs h1 of (kvs, h2) \<Rightarrow> ((fst kj, v) # kvs, h2)))"


definition JSON_clone :: "store \<Rightarrow> val \<Rightarrow> error + val \<times> store" where
  "JSON_clone h v =
     (case serialize h [] v of
        Inl e \<Rightarrow> Inl e
      | Inr None \<Rightarrow> Inl SyntaxError
      | Inr (Some j) \<Rightarrow> Inr (materialize j h))"

text \<open>The elements of the array a value refers to, if it refers to one.\<close>

definition array_at :: "store \<Rightarrow> val \<Rightarrow> val list option" where
  "array_at h v =
     (case v of
        VRef a \<Rightarrow> (if a < length h then (case h ! a of OArr xs \<Rightarrow> Some xs | _ \<Rightarrow> None)
                   else None)
      | _ \<Rightarrow> None)"

text \<open>
  The helpers: the copy is allocated, then the fresh array is updated in place. The item is
  stored as it is given. The result is the address of the new array and the new store.
\<close>

definition insertBefore_store :: "store \<Rightarrow> val \<Rightarrow> int \<Rightarrow> val \<Rightarrow> error + addr \<times> store" where
  "insertBefore_store h arr idx item =
     (case JSON_clone h arr of
        Inl e \<Rightarrow> Inl e
      | Inr (newArr, h1) \<Rightarrow>
          (case (newArr, array_at h1 newArr) of
             (VRef r, Some xs) \<Rightarrow>
               (let insertAt = max 0 idx
                in Inr (r, h1[r := OArr (splice_insert xs insertAt item)]))
           | _ \<Rightarrow> Inl TypeError))"

definition insertAfter_store :: "store \<Rightarrow> val \<Rightarrow> int \<Rightarrow> val \<Rightarrow> error + addr \<times> store" where
  "insertAfter_store h arr idx item =
     (case JSON_clone h arr of
        Inl e \<Rightarrow> Inl e
      | Inr (newArr, h1) \<Rightarrow>
          (case (newArr, array_at h1 newArr, array_at h arr) of
             (VRef r, Some xs, Some ys) \<Rightarrow>
               (let insertAt = min (int (length ys)) (idx + 1)
                in Inr (r, h1[r := OArr (splice_insert xs insertAt item)]))
           | _ \<Rightarrow> Inl TypeError))"

definition swapElements_store :: "store \<Rightarrow> val \<Rightarrow> int \<Rightarrow> int \<Rightarrow> error + addr \<times> store" where
  "swapElements_store h arr idx1 idx2 =
     (case JSON_clone h arr of
        Inl e \<Rightarrow> Inl e
      | Inr (newArr, h1) \<Rightarrow>
          (case (newArr, array_at h1 newArr) of
             (VRef r, Some xs) \<Rightarrow>
               (let v1 = js_get VUndefined xs idx2;
                    v2 = js_get VUndefined xs idx1;
                    xs1 = js_set VUndefined xs idx1 v1
                in Inr (r, h1[r := OArr (js_set VUndefined xs1 idx2 v2)]))
           | _ \<Rightarrow> Inl NotASequence))"

text \<open>
  The addresses a value and an object refer to, and the addresses reachable from a value:
  the objects that share mutable structure with it.
\<close>

fun refs_val :: "val \<Rightarrow> addr set" where
  "refs_val (VRef a) = {a}"
| "refs_val v = {}"

fun refs_obj :: "obj \<Rightarrow> addr set" where
  "refs_obj (OArr vs) = \<Union> (refs_val ` set vs)"
| "refs_obj (OObj fs) = \<Union> (refs_val ` snd ` set fs)"
| "refs_obj OFun = {}"

inductive_set reach :: "store \<Rightarrow> val \<Rightarrow> addr set" for h :: store and v :: val where
  root: "a \<in> refs_val v \<Longrightarrow> a \<in> reach h v"
| step: "a \<in> reach h v \<Longrightarrow> a < length h \<Longrightarrow> b \<in> refs_obj (h ! a) \<Longrightarrow> b \<in> reach h v"

text \<open>
  The invariant of allocation: the later store extends the earlier one, and the objects
  it adds refer to added objects only.
\<close>

definition fresh_extension :: "store \<Rightarrow> store \<Rightarrow> bool" where
  "fresh_extension h h' \<longleftrightarrow>
     length h \<le> length h' \<and> take (length h) h' = h
     \<and> (\<forall>a. length h \<le> a \<and> a < length h' \<longrightarrow> refs_obj (h' ! a) \<subseteq> {length h..<length h'})"

text \<open>
  The two models of the array helpers are related by what a value of the store denotes:
  a primitive denotes itself, a reference to an array (object) denotes the array (object)
  of what its elements (fields) denote, a reference to a function denotes that function.
  The relation is inductive, so a value that reaches itself denotes nothing.
\<close>

inductive denotes :: "store \<Rightarrow> val \<Rightarrow> jsval \<Rightarrow> bool" for h :: store where
  undefined: "denotes h VUndefined JUndefined"
| null: "denotes h VNull JNull"
| bool: "denotes h (VBool b) (JBool b)"
| num: "denotes h (VNum n) (JNum n)"
| str: "denotes h (VStr s) (JStr s)"
| func: "a < length h \<Longrightarrow> h ! a = OFun \<Longrightarrow> denotes h (VRef a) (JFun a)"
| array: "a < length h \<Longrightarrow> h ! a = OArr vs \<Longrightarrow> list_all2 (denotes h) vs ts \<Longrightarrow>
          denotes h (VRef a) (JArr ts)"
| object: "a < length h \<Longrightarrow> h ! a = OObj fs \<Longrightarrow>
           list_all2 (\<lambda>kv kt. fst kv = fst kt \<and> denotes h (snd kv) (snd kt)) fs fts \<Longrightarrow>
           denotes h (VRef a) (JObj fts)"


section \<open>Properties\<close>

subsection \<open>Rounding to the nearest double\<close>

lemma powi_pos: "0 < (2::rat) powi k"
  by simp

lemma powi_mono: "a \<le> b \<Longrightarrow> (2::rat) powi a \<le> 2 powi b"
  by (rule power_int_increasing) simp_all

lemma powi_less_iff: "(2::rat) powi a < 2 powi b \<longleftrightarrow> a < b"
proof
  assume less: "(2::rat) powi a < 2 powi b"
  show "a < b"
  proof (rule ccontr)
    assume "\<not> a < b"
    then have "b \<le> a" by simp
    then have "(2::rat) powi b \<le> 2 powi a" by (rule powi_mono)
    with less show False by simp
  qed
next
  assume "a < b"
  then show "(2::rat) powi a < 2 powi b" by (rule power_int_strict_increasing) simp
qed

lemma powi_add: "(2::rat) powi (a + b) = 2 powi a * 2 powi b"
  by (simp add: power_int_add)

lemma powi_diff: "(2::rat) powi (a - b) = 2 powi a / 2 powi b"
  by (simp add: power_int_diff)

lemma powi_nat: "0 \<le> k \<Longrightarrow> (2::rat) powi k = 2 ^ nat k"
  by (simp add: power_int_def)

lemma binade_bounds:
  assumes "0 < q"
  shows "2 powi binade q \<le> q" and "q < 2 powi (binade q + 1)"
proof -
  obtain a b where ab: "quotient_of q = (a, b)" by (cases "quotient_of q")
  then have b: "0 < b" and q: "q = of_int a / of_int b"
    by (simp_all add: quotient_of_denom_pos quotient_of_div)
  with assms have a: "0 < a" by (simp add: zero_less_divide_iff)
  let ?la = "bitlen a" and ?lb = "bitlen b"
  have la: "1 \<le> ?la" and lb: "1 \<le> ?lb"
    using a b bitlen_eq_zero_iff [of a] bitlen_eq_zero_iff [of b] bitlen_nonneg [of a]
      bitlen_nonneg [of b] by linarith+
  from bitlen_bounds [OF a] have "(2::int) ^ nat (?la - 1) \<le> a" and "a < 2 ^ nat ?la"
    by simp_all
  then have "(of_int ((2::int) ^ nat (?la - 1)) :: rat) \<le> of_int a"
    and "(of_int a :: rat) < of_int (2 ^ nat ?la)"
    by (simp_all only: of_int_le_iff of_int_less_iff)
  with la have a1: "2 powi (?la - 1) \<le> (of_int a :: rat)" and a2: "(of_int a :: rat) < 2 powi ?la"
    by (simp_all add: powi_nat)
  from bitlen_bounds [OF b] have "(2::int) ^ nat (?lb - 1) \<le> b" and "b < 2 ^ nat ?lb"
    by simp_all
  then have "(of_int ((2::int) ^ nat (?lb - 1)) :: rat) \<le> of_int b"
    and "(of_int b :: rat) < of_int (2 ^ nat ?lb)"
    by (simp_all only: of_int_le_iff of_int_less_iff)
  with lb have b1: "2 powi (?lb - 1) \<le> (of_int b :: rat)" and b2: "(of_int b :: rat) < 2 powi ?lb"
    by (simp_all add: powi_nat)
  have bpos: "0 < (of_int b :: rat)" and apos: "0 < (of_int a :: rat)" using a b by simp_all
  have "2 powi (?la - ?lb - 1) = 2 powi (?la - 1) / (2::rat) powi ?lb"
    by (simp add: powi_diff [symmetric] algebra_simps)
  also have "\<dots> \<le> of_int a / 2 powi ?lb"
    using a1 by (simp add: divide_right_mono)
  also have "\<dots> \<le> of_int a / of_int b"
    using b2 bpos apos by (simp add: frac_le)
  finally have lower: "2 powi (?la - ?lb - 1) \<le> q" by (simp add: q)
  have "of_int a / of_int b < 2 powi ?la / (of_int b :: rat)"
    using a2 bpos by (simp add: divide_strict_right_mono)
  also have "\<dots> \<le> 2 powi ?la / 2 powi (?lb - 1)"
    using b1 by (simp add: frac_le)
  also have "\<dots> = 2 powi (?la - ?lb + 1)"
    by (simp add: powi_diff [symmetric] algebra_simps)
  finally have upper: "q < 2 powi (?la - ?lb + 1)" by (simp add: q)
  show "2 powi binade q \<le> q" and "q < 2 powi (binade q + 1)"
    using lower upper by (auto simp: binade_def ab Let_def)
qed

lemma binade_unique:
  assumes "0 < q" and "2 powi k \<le> q" and "q < 2 powi (k + 1)"
  shows "binade q = k"
proof -
  from binade_bounds(1) [OF assms(1)] assms(3) have "(2::rat) powi binade q < 2 powi (k + 1)"
    by (rule le_less_trans)
  moreover from assms(2) binade_bounds(2) [OF assms(1)]
  have "(2::rat) powi k < 2 powi (binade q + 1)" by (rule le_less_trans)
  ultimately show ?thesis by (simp only: powi_less_iff)
qed

lemma binade_mono:
  assumes "0 < q" and "q \<le> q'"
  shows "binade q \<le> binade q'"
proof (rule ccontr)
  assume "\<not> binade q \<le> binade q'"
  then have "binade q' + 1 \<le> binade q" by simp
  then have "(2::rat) powi (binade q' + 1) \<le> 2 powi binade q" by (rule powi_mono)
  with binade_bounds(1) [OF assms(1)] have "2 powi (binade q' + 1) \<le> q" by simp
  moreover from assms have "0 < q'" by simp
  from binade_bounds(2) [OF this] have "q' < 2 powi (binade q' + 1)" .
  ultimately show False using assms(2) by simp
qed

lemma round_half_even_error:
  "\<bar>of_int (round_half_even x) - x\<bar> \<le> 1 / 2"
proof -
  have "of_int \<lfloor>x\<rfloor> \<le> x" and "x < of_int \<lfloor>x\<rfloor> + 1" by linarith+
  then show ?thesis by (auto simp: round_half_even_def Let_def)
qed

lemma round_half_even_of_int [simp]: "round_half_even (of_int n) = n"
  by (simp add: round_half_even_def)

lemma round_half_even_mono:
  assumes "x \<le> y"
  shows "round_half_even x \<le> round_half_even y"
proof -
  have fx: "of_int \<lfloor>x\<rfloor> \<le> x" "x < of_int \<lfloor>x\<rfloor> + 1" by linarith+
  have fy: "of_int \<lfloor>y\<rfloor> \<le> y" "y < of_int \<lfloor>y\<rfloor> + 1" by linarith+
  from assms have "\<lfloor>x\<rfloor> \<le> \<lfloor>y\<rfloor>" by (rule floor_mono)
  then consider "\<lfloor>x\<rfloor> = \<lfloor>y\<rfloor>" | "\<lfloor>x\<rfloor> + 1 \<le> \<lfloor>y\<rfloor>" by linarith
  then show ?thesis
  proof cases
    case 1
    with assms show ?thesis by (auto simp: round_half_even_def Let_def)
  next
    case 2
    have "round_half_even x \<le> \<lfloor>x\<rfloor> + 1" by (auto simp: round_half_even_def Let_def)
    moreover have "\<lfloor>y\<rfloor> \<le> round_half_even y" by (auto simp: round_half_even_def Let_def)
    ultimately show ?thesis using 2 by linarith
  qed
qed

lemma round_half_even_le:
  "x \<le> of_int n \<Longrightarrow> round_half_even x \<le> n"
  using round_half_even_mono [of x "of_int n"] by simp

lemma round_half_even_ge:
  "of_int n \<le> x \<Longrightarrow> n \<le> round_half_even x"
  using round_half_even_mono [of "of_int n" x] by simp

lemma ulp_exponent_ge: "- 1074 \<le> ulp_exponent q"
  by (simp add: ulp_exponent_def)

lemma ulp_exponent_mono: "0 < q \<Longrightarrow> q \<le> q' \<Longrightarrow> ulp_exponent q \<le> ulp_exponent q'"
  using binade_mono [of q q'] by (simp add: ulp_exponent_def)

text \<open>The scaled value is below \<open>2 ^ 53\<close>, and at least \<open>2 ^ 52\<close> in the normal range.\<close>

lemma scaled_less:
  assumes "0 < q"
  shows "q / 2 powi ulp_exponent q < 2 ^ 53"
proof -
  have "binade q + 1 \<le> ulp_exponent q + 53" by (simp add: ulp_exponent_def)
  then have "(2::rat) powi (binade q + 1) \<le> 2 powi (ulp_exponent q + 53)" by (rule powi_mono)
  with binade_bounds(2) [OF assms] have "q < 2 powi (ulp_exponent q + 53)" by simp
  also have "\<dots> = 2 powi ulp_exponent q * 2 ^ 53" by (simp add: powi_add)
  finally show ?thesis by (simp add: pos_divide_less_eq mult.commute)
qed

lemma scaled_ge:
  assumes "0 < q" and "- 1022 \<le> binade q"
  shows "2 ^ 52 \<le> q / 2 powi ulp_exponent q"
proof -
  from assms(2) have "binade q = ulp_exponent q + 52" by (simp add: ulp_exponent_def)
  with binade_bounds(1) [OF assms(1)] have "2 powi (ulp_exponent q + 52) \<le> q" by simp
  moreover have "(2::rat) powi (ulp_exponent q + 52) = 2 powi ulp_exponent q * 2 ^ 52"
    by (simp add: powi_add)
  ultimately show ?thesis by (simp add: pos_le_divide_eq mult.commute)
qed

lemma nearest_zero [simp]: "nearest 0 = 0"
  by (simp add: nearest_def round_half_even_def)

lemma nearest_nonneg: "0 \<le> q \<Longrightarrow> 0 \<le> nearest q"
proof -
  assume "0 \<le> q"
  then have "of_int 0 \<le> q / 2 powi ulp_exponent q" by simp
  then have "0 \<le> round_half_even (q / 2 powi ulp_exponent q)" by (rule round_half_even_ge)
  then show ?thesis by (simp add: nearest_def)
qed

lemma nearest_le_binade:
  assumes "0 < q"
  shows "nearest q \<le> 2 powi (ulp_exponent q + 53)"
proof -
  from scaled_less [OF assms] have "q / 2 powi ulp_exponent q \<le> of_int (2 ^ 53)" by simp
  then have "round_half_even (q / 2 powi ulp_exponent q) \<le> 2 ^ 53" by (rule round_half_even_le)
  then have "(of_int (round_half_even (q / 2 powi ulp_exponent q)) :: rat) \<le> of_int (2 ^ 53)"
    by (simp only: of_int_le_iff)
  then have "nearest q \<le> 2 ^ 53 * 2 powi ulp_exponent q"
    by (simp add: nearest_def)
  then show ?thesis by (simp add: powi_add mult.commute)
qed

lemma nearest_ge_binade:
  assumes "0 < q" and "- 1022 \<le> binade q"
  shows "2 powi (ulp_exponent q + 52) \<le> nearest q"
proof -
  from scaled_ge [OF assms] have "of_int (2 ^ 52) \<le> q / 2 powi ulp_exponent q" by simp
  then have "2 ^ 52 \<le> round_half_even (q / 2 powi ulp_exponent q)" by (rule round_half_even_ge)
  then have "(of_int (2 ^ 52) :: rat) \<le> of_int (round_half_even (q / 2 powi ulp_exponent q))"
    by (simp only: of_int_le_iff)
  then have "2 ^ 52 * 2 powi ulp_exponent q \<le> nearest q"
    by (simp add: nearest_def)
  then show ?thesis by (simp add: powi_add mult.commute)
qed

lemma nearest_mono:
  assumes "0 \<le> q" and "q \<le> q'"
  shows "nearest q \<le> nearest q'"
proof (cases "q = 0")
  case True
  with assms nearest_nonneg [of q'] show ?thesis by simp
next
  case False
  with assms have q: "0 < q" and q': "0 < q'" by simp_all
  from ulp_exponent_mono [OF q assms(2)]
  consider "ulp_exponent q = ulp_exponent q'" | "ulp_exponent q + 1 \<le> ulp_exponent q'"
    by linarith
  then show ?thesis
  proof cases
    case 1
    from assms(2) have "q / 2 powi ulp_exponent q' \<le> q' / 2 powi ulp_exponent q'"
      by (simp add: divide_right_mono)
    then have "round_half_even (q / 2 powi ulp_exponent q')
               \<le> round_half_even (q' / 2 powi ulp_exponent q')"
      by (rule round_half_even_mono)
    then show ?thesis by (simp add: nearest_def 1)
  next
    case 2
    then have normal: "- 1022 \<le> binade q'"
      using ulp_exponent_ge [of q] by (simp add: ulp_exponent_def max_def split: if_splits)
    from 2 have "ulp_exponent q + 53 \<le> ulp_exponent q' + 52" by simp
    then have "(2::rat) powi (ulp_exponent q + 53) \<le> 2 powi (ulp_exponent q' + 52)"
      by (rule powi_mono)
    with nearest_le_binade [OF q] nearest_ge_binade [OF q' normal] show ?thesis by simp
  qed
qed

lemma nearest_error:
  assumes "0 < q"
  shows "\<bar>nearest q - q\<bar> \<le> 2 powi ulp_exponent q / 2"
proof -
  let ?u = "(2::rat) powi ulp_exponent q"
  have u: "0 < ?u" by simp
  have "nearest q - q = (of_int (round_half_even (q / ?u)) - q / ?u) * ?u"
    by (simp add: nearest_def algebra_simps)
  then have "\<bar>nearest q - q\<bar> = \<bar>of_int (round_half_even (q / ?u)) - q / ?u\<bar> * ?u"
    by (simp add: abs_mult)
  also have "\<dots> \<le> 1 / 2 * ?u"
    using round_half_even_error [of "q / ?u"] by (intro mult_right_mono) simp_all
  finally show ?thesis by simp
qed

lemma binade_normal: "2 powi (- 1022) \<le> q \<Longrightarrow> - 1022 \<le> binade q"
proof (rule ccontr)
  assume q: "2 powi (- 1022) \<le> q" and "\<not> - 1022 \<le> binade q"
  then have "binade q + 1 \<le> - 1022" by simp
  then have "(2::rat) powi (binade q + 1) \<le> 2 powi (- 1022)" by (rule powi_mono)
  moreover from powi_pos [of "- 1022"] q have "0 < q" by (rule less_le_trans)
  from binade_bounds(2) [OF this] have "q < 2 powi (binade q + 1)" .
  ultimately show False using q by simp
qed

text \<open>In the normal range the relative error of rounding is at most \<open>2 ^ - 53\<close>.\<close>

lemma nearest_relative_error:
  assumes "2 powi (- 1022) \<le> q"
  shows "\<bar>nearest q - q\<bar> \<le> q / 2 ^ 53"
proof -
  from powi_pos [of "- 1022"] assms have q: "0 < q" by (rule less_le_trans)
  from binade_normal [OF assms] have e: "ulp_exponent q = binade q - 52"
    by (simp add: ulp_exponent_def)
  have "2 powi ulp_exponent q / 2 = 2 powi binade q / (2::rat) ^ 53"
    by (simp add: e powi_diff)
  also have "\<dots> \<le> q / 2 ^ 53"
    using binade_bounds(1) [OF q] by (simp add: divide_right_mono)
  finally show ?thesis using nearest_error [OF q] by simp
qed

lemma nearest_idem:
  assumes "0 \<le> q"
  shows "nearest (nearest q) = nearest q"
proof (cases "q = 0")
  case True
  then show ?thesis by simp
next
  case False
  with assms have q: "0 < q" by simp
  let ?e = "ulp_exponent q"
  let ?u = "(2::rat) powi ?e"
  let ?m = "round_half_even (q / ?u)"
  let ?v = "nearest q"
  have v: "?v = of_int ?m * ?u" by (simp add: nearest_def)
  have u: "0 < ?u" by simp
  from scaled_less [OF q] have "q / ?u \<le> of_int (2 ^ 53)" by simp
  then have m_le: "?m \<le> 2 ^ 53" by (rule round_half_even_le)
  have "of_int 0 \<le> q / ?u" using q by simp
  then have m_ge: "0 \<le> ?m" by (rule round_half_even_ge)
  consider "?m = 0" | "?m = 2 ^ 53" | "0 < ?m" "?m < 2 ^ 53" using m_le m_ge by linarith
  then show ?thesis
  proof cases
    case 1
    then show ?thesis by (simp add: v)
  next
    case 2
    then have val: "?v = 2 powi (?e + 53)" by (simp add: v powi_add mult.commute)
    have "binade ?v = ?e + 53"
    proof (rule binade_unique)
      show "0 < ?v" by (simp add: val)
      show "2 powi (?e + 53) \<le> ?v" by (simp add: val)
      show "?v < 2 powi (?e + 53 + 1)" by (simp only: val powi_less_iff)
    qed
    then have e': "ulp_exponent ?v = ?e + 1"
      using ulp_exponent_ge [of q] by (simp add: ulp_exponent_def)
    have "?v / 2 powi (?e + 1) = of_int (2 ^ 52)"
      by (simp add: val powi_add)
    then have "round_half_even (?v / 2 powi (?e + 1)) = 2 ^ 52"
      by (simp only: round_half_even_of_int)
    then have "nearest ?v = 2 ^ 52 * 2 powi (?e + 1)"
      unfolding nearest_def [of ?v] e' by simp
    then show ?thesis by (simp add: val powi_add)
  next
    case 3
    let ?E = "?e + 52"
    have E: "?E = max (binade q) (- 1022)" by (simp add: ulp_exponent_def)
    have vpos: "0 < ?v" using 3(1) by (simp add: v)
    from 3(2) have "(of_int ?m :: rat) < of_int (2 ^ 53)" by (simp only: of_int_less_iff)
    then have "?v < 2 ^ 53 * ?u" by (simp add: v)
    then have upper: "?v < 2 powi (?E + 1)" by (simp add: powi_add mult.commute)
    with binade_bounds(1) [OF vpos] have "(2::rat) powi binade ?v < 2 powi (?E + 1)"
      by (rule le_less_trans)
    then have le: "binade ?v \<le> ?E" by (simp add: powi_less_iff)
    have ge: "?E \<le> max (binade ?v) (- 1022)"
    proof (cases "- 1022 \<le> binade q")
      case True
      from nearest_ge_binade [OF q True] binade_bounds(2) [OF vpos]
      have "(2::rat) powi ?E < 2 powi (binade ?v + 1)" by (rule le_less_trans)
      then have "?E \<le> binade ?v" by (simp add: powi_less_iff)
      then show ?thesis by simp
    next
      case False
      then show ?thesis by (simp add: E)
    qed
    from le ge E have "max (binade ?v) (- 1022) = ?E" by (simp add: max_def split: if_splits)
    then have e': "ulp_exponent ?v = ?e" by (simp add: ulp_exponent_def)
    have "?v / ?u = of_int ?m" by (simp add: v)
    then have "round_half_even (?v / ?u) = ?m" by (simp only: round_half_even_of_int)
    then have "nearest ?v = of_int ?m * ?u" unfolding nearest_def [of ?v] e' by simp
    then show ?thesis by (simp add: v)
  qed
qed

subsection \<open>The page-fit scale\<close>

lemma fl_positive:
  "0 < q \<Longrightarrow> fl q = (if 2 powi 1024 \<le> nearest q then PosInfinity else Finite (nearest q))"
  by (simp add: fl_def Let_def)

lemma is_double_positive:
  "0 < q \<Longrightarrow> is_double q \<longleftrightarrow> nearest q = q \<and> q < 2 powi 1024"
  by (auto simp: is_double_def fl_positive)

lemma js_div_positive:
  "0 < a \<Longrightarrow> 0 < b \<Longrightarrow> js_div (Finite a) (Finite b) = fl (a / b)"
  by (simp add: js_div_def)

lemma nearest_1: "nearest 1 = 1"
  by code_simp

lemma nearest_612: "nearest 612 = 612"
  by code_simp

lemma nearest_792: "nearest 792 = 792"
  by code_simp

lemma quotient_normal:
  assumes "0 < (d::rat)" and "d < 2 powi 1024" and "4 \<le> c"
  shows "2 powi (- 1022) \<le> c / d"
proof -
  have "(2::rat) powi (- 1022) = 4 / 2 powi 1024"
    using powi_diff [of 2 1024] by simp
  also have "\<dots> \<le> c / 2 powi 1024" using assms(3) by (simp add: divide_right_mono)
  also have "\<dots> \<le> c / d" using assms by (intro divide_left_mono) simp_all
  finally show ?thesis .
qed

lemma nearest_upper:
  assumes "2 powi (- 1022) \<le> q"
  shows "nearest q \<le> q * (1 + 1 / 2 ^ 53)"
proof -
  from nearest_relative_error [OF assms] have "nearest q - q \<le> q / 2 ^ 53"
    by (rule abs_le_D1)
  then show ?thesis by (simp add: algebra_simps)
qed

lemma nearest_lower:
  assumes "2 powi (- 1022) \<le> q"
  shows "q * (1 - 1 / 2 ^ 53) \<le> nearest q"
proof -
  from nearest_relative_error [OF assms] have "- (nearest q - q) \<le> q / 2 ^ 53"
    by (rule abs_le_D2)
  then show ?thesis by (simp add: algebra_simps)
qed

lemma nearest_positive:
  assumes "2 powi (- 1022) \<le> q"
  shows "0 < nearest q"
proof -
  from powi_pos [of "- 1022"] assms have "0 < q" by (rule less_le_trans)
  then have "0 < q * (1 - 1 / 2 ^ 53)" by simp
  with nearest_lower [OF assms] show ?thesis by simp
qed

text \<open>The quotient of a page dimension by a larger double: rounded, it is a double in (0, 1].\<close>

lemma page_quotient:
  assumes d: "nearest d = d" "d < 2 powi 1024" and c: "4 \<le> c" "c < d" "nearest c = c"
  shows "fl (c / d) = Finite (nearest (c / d))"
    and "0 < nearest (c / d)" and "nearest (c / d) \<le> 1"
    and "nearest (c / d) \<le> c / d * (1 + 1 / 2 ^ 53)"
    and "c / d * (1 - 1 / 2 ^ 53) \<le> nearest (c / d)"
proof -
  from c have dpos: "0 < d" and cpos: "0 < c" by simp_all
  then have qpos: "0 < c / d" by simp
  from dpos d(2) c(1) have normal: "2 powi (- 1022) \<le> c / d" by (rule quotient_normal)
  from c(2) dpos have "c / d \<le> 1" by simp
  with qpos have "nearest (c / d) \<le> nearest 1" by (intro nearest_mono) simp_all
  then show le1: "nearest (c / d) \<le> 1" by (simp add: nearest_1)
  have "(1::rat) < 2 powi 1024" using powi_less_iff [of 0 1024] by simp
  with le1 have "\<not> 2 powi 1024 \<le> nearest (c / d)" by simp
  with qpos show "fl (c / d) = Finite (nearest (c / d))" by (simp add: fl_positive)
  from normal show "0 < nearest (c / d)" by (rule nearest_positive)
  from normal show "nearest (c / d) \<le> c / d * (1 + 1 / 2 ^ 53)" by (rule nearest_upper)
  from normal show "c / d * (1 - 1 / 2 ^ 53) \<le> nearest (c / d)" by (rule nearest_lower)
qed

lemma fl_moderate:
  assumes "0 < q" and "nearest q = v" and "v \<le> 2 ^ 53"
  shows "fl q = Finite v"
proof -
  have "(2::rat) powi 53 < 2 powi 1024" by (simp only: powi_less_iff)
  then have "(2::rat) ^ 53 < 2 powi 1024" by simp
  with assms(2,3) have "\<not> 2 powi 1024 \<le> nearest q" by simp
  with assms(1,2) show ?thesis by (simp add: fl_positive)
qed

lemma is_double_moderate:
  assumes "0 < q" and "nearest q = q" and "q \<le> 2 ^ 53"
  shows "is_double q"
  using fl_moderate [OF assms] by (simp add: is_double_def)

lemma nearest_half: "nearest (1 / 2) = 1 / 2"
  by code_simp

lemma nearest_1224: "nearest 1224 = 1224"
  by code_simp

lemma fitToScale_half:
  "fitToScale \<lparr>left = l, top = t, width = Finite 1224, height = Finite 1584\<rparr> (Finite 1)
     = Finite (1 / 2)"
proof -
  have a: "fl 792 = Finite 792" by (rule fl_moderate, simp, rule nearest_792, simp)
  have b: "fl (1 / 2) = Finite (1 / 2)" by (rule fl_moderate, simp, rule nearest_half, simp)
  have c: "fl 1224 = Finite 1224" by (rule fl_moderate, simp, rule nearest_1224, simp)
  show ?thesis
    using a b c by (simp add: fitToScale_def pageWidth_def pageHeight_def js_div_positive)
qed

lemma fitToScale_first_test:
  assumes h: "is_double h" "0 < h"
  shows "\<exists>s1. (if js_lt (js_div pageHeight (Finite 1)) (Finite h)
               then js_div pageHeight (Finite h) else Finite 1) = Finite s1
           \<and> 0 < s1 \<and> s1 \<le> 1 \<and> nearest s1 = s1
           \<and> s1 \<le> 792 / h * (1 + 1 / 2 ^ 53)
           \<and> (s1 = 1 \<or> fl (792 / h) = Finite s1 \<and> 792 / h * (1 - 1 / 2 ^ 53) \<le> s1)"
proof -
  from h have dbl: "nearest h = h" "h < 2 powi 1024" by (simp_all add: is_double_positive)
  have q: "js_div pageHeight (Finite 1) = Finite 792"
    by (simp add: pageHeight_def js_div_positive fl_positive nearest_792)
  show ?thesis
  proof (cases "792 < h")
    case True
    have c: "(4::rat) \<le> 792" by simp
    note pq = page_quotient [OF dbl c True nearest_792]
    from h(2) pq(1) have "js_div pageHeight (Finite h) = Finite (nearest (792 / h))"
      by (simp add: pageHeight_def js_div_positive)
    moreover from h(2) have "0 \<le> 792 / h" by simp
    then have "nearest (nearest (792 / h)) = nearest (792 / h)" by (rule nearest_idem)
    ultimately show ?thesis using True q pq by simp
  next
    case False
    then have "h \<le> 792" by simp
    with h(2) have "1 \<le> 792 / h" by (simp add: pos_le_divide_eq)
    then have "1 * 1 \<le> 792 / h * (1 + 1 / 2 ^ 53)" using h(2) by (intro mult_mono) simp_all
    with False q show ?thesis by (simp add: nearest_1)
  qed
qed

lemma fitToScale_second_test:
  assumes w: "is_double w" "0 < w" and s1: "0 < s1" "s1 \<le> 1" "nearest s1 = s1"
  shows "\<exists>s2. (if js_lt (js_div pageWidth (Finite s1)) (Finite w)
               then js_div pageWidth (Finite w) else Finite s1) = Finite s2
           \<and> 0 < s2 \<and> s2 \<le> s1
           \<and> s2 \<le> 612 / w * (1 + 1 / 2 ^ 53)
           \<and> (s2 = s1 \<or> fl (612 / w) = Finite s2 \<and> 612 / w * (1 - 1 / 2 ^ 53) \<le> s2)"
proof -
  from w have dbl: "nearest w = w" "w < 2 powi 1024" by (simp_all add: is_double_positive)
  let ?x = "612 / s1"
  from s1 have "612 / 1 \<le> ?x" by (intro divide_left_mono) simp_all
  then have x612: "612 \<le> ?x" by simp
  with s1(1) have xpos: "0 < ?x" by simp
  have "(2::rat) powi (- 1022) \<le> 2 powi 0" by (rule powi_mono) simp
  with x612 have normal: "2 powi (- 1022) \<le> ?x" by simp
  have div: "js_div pageWidth (Finite s1) = fl ?x"
    using s1(1) by (simp add: pageWidth_def js_div_positive)
  have test: "js_lt (fl ?x) (Finite w) \<longleftrightarrow> nearest ?x < w"
    using xpos dbl(2) by (auto simp: fl_positive)
  show ?thesis
  proof (cases "nearest ?x < w")
    case True
    have "?x < w"
    proof (rule ccontr)
      assume "\<not> ?x < w"
      with w(2) have "nearest w \<le> nearest ?x" by (intro nearest_mono) simp_all
      with True dbl(1) show False by simp
    qed
    with s1(1) have "612 < w * s1" by (simp add: pos_divide_less_eq)
    with w(2) have below: "612 / w < s1" by (simp add: pos_divide_less_eq mult.commute)
    from x612 have "nearest 612 \<le> nearest ?x" by (intro nearest_mono) simp_all
    with True have big: "612 < w" by (simp add: nearest_612)
    have c: "(4::rat) \<le> 612" by simp
    note pq = page_quotient [OF dbl c big nearest_612]
    from w(2) pq(1) have "js_div pageWidth (Finite w) = Finite (nearest (612 / w))"
      by (simp add: pageWidth_def js_div_positive)
    moreover from w(2) below have "nearest (612 / w) \<le> nearest s1"
      by (intro nearest_mono) simp_all
    ultimately show ?thesis using True div test pq s1(3) by simp
  next
    case False
    then have "w \<le> nearest ?x" by simp
    also from normal have "\<dots> \<le> ?x * (1 + 1 / 2 ^ 53)" by (rule nearest_upper)
    finally have "w * s1 \<le> 612 * (1 + 1 / 2 ^ 53)"
      using s1(1) by (simp add: pos_le_divide_eq)
    with w(2) have "s1 \<le> 612 / w * (1 + 1 / 2 ^ 53)"
      by (simp add: pos_le_divide_eq mult.commute)
    with False div test s1(1) show ?thesis by simp
  qed
qed

lemma nearest_1063: "nearest 1063 = 1063"
  by code_simp

lemma nearest_100: "nearest 100 = 100"
  by code_simp

lemma nearest_612_1063: "nearest (612 / 1063) = 5185706438289264 / 2 ^ 53"
  by code_simp

lemma nearest_2000: "nearest 2000 = 2000"
  by code_simp

lemma nearest_1000: "nearest 1000 = 1000"
  by code_simp

lemma nearest_612_2000: "nearest (612 / 2000) = 5512405943901487 / 2 ^ 54"
  by code_simp

lemma nearest_792_1000: "nearest (792 / 1000) = 7133701809754866 / 2 ^ 53"
  by code_simp

lemma nearest_back: "nearest (612 / (7133701809754866 / 2 ^ 53)) = 6796980971706181 / 2 ^ 43"
  by code_simp

text \<open>
  Claim C9, amended. For a bounding rectangle whose width and height are positive doubles,
  \<open>fitToScale\<close> at the default scale 1 returns a finite scale that is 1 or one of the two
  rounded quotients 612/width and 792/height. The scale is positive and at most 1 (shrunk,
  never grown); it is the minimum of 1, 612/width and 792/height up to a relative error
  of \<open>2 ^ - 53\<close>, and each scaled dimension is above the page dimension by at most that
  relative error. A 1224 by 1584 rectangle gets exactly 1/2.
\<close>

theorem fitToScale_default_rounded:
  assumes "is_double w" and "is_double h" and "0 < w" and "0 < h"
  shows "(\<exists>s. fitToScale \<lparr>left = l, top = t, width = Finite w, height = Finite h\<rparr> (Finite 1)
               = Finite s
            \<and> (s = 1 \<or> fl (612 / w) = Finite s \<or> fl (792 / h) = Finite s)
            \<and> 0 < s \<and> s \<le> 1
            \<and> \<bar>s - min 1 (min (612 / w) (792 / h))\<bar> \<le> min 1 (min (612 / w) (792 / h)) / 2 ^ 53
            \<and> w * s \<le> 612 * (1 + 1 / 2 ^ 53) \<and> h * s \<le> 792 * (1 + 1 / 2 ^ 53))
         \<and> fitToScale \<lparr>left = l, top = t, width = Finite 1224, height = Finite 1584\<rparr> (Finite 1)
             = Finite (1 / 2)"
proof
  let ?u = "(1::rat) / 2 ^ 53"
  let ?m = "min 1 (min (612 / w) (792 / h))"
  from fitToScale_first_test [OF assms(2,4)] obtain s1
    where run1: "(if js_lt (js_div pageHeight (Finite 1)) (Finite h)
                  then js_div pageHeight (Finite h) else Finite 1) = Finite s1"
      and s1: "0 < s1" "s1 \<le> 1" "nearest s1 = s1"
      and h1: "s1 \<le> 792 / h * (1 + ?u)"
      and o1: "s1 = 1 \<or> fl (792 / h) = Finite s1 \<and> 792 / h * (1 - ?u) \<le> s1"
    by blast
  from fitToScale_second_test [OF assms(1,3) s1] obtain s2
    where run2: "(if js_lt (js_div pageWidth (Finite s1)) (Finite w)
                  then js_div pageWidth (Finite w) else Finite s1) = Finite s2"
      and s2: "0 < s2" "s2 \<le> s1"
      and w2: "s2 \<le> 612 / w * (1 + ?u)"
      and o2: "s2 = s1 \<or> fl (612 / w) = Finite s2 \<and> 612 / w * (1 - ?u) \<le> s2"
    by blast
  have run: "fitToScale \<lparr>left = l, top = t, width = Finite w, height = Finite h\<rparr> (Finite 1)
             = Finite s2"
    by (simp only: fitToScale_def Let_def rect.select_convs run1 run2)
  have origin: "s2 = 1 \<or> fl (612 / w) = Finite s2 \<or> fl (792 / h) = Finite s2"
    using o1 o2 by auto
  have le1: "s2 \<le> 1" using s2(2) s1(2) by simp
  have h2: "s2 \<le> 792 / h * (1 + ?u)" using s2(2) h1 by simp
  define m where "m = min 1 (min (612 / w) (792 / h))"
  have m_le: "m \<le> 1" "m \<le> 612 / w" "m \<le> 792 / h" by (simp_all add: m_def)
  have m_is: "m = 1 \<or> m = 612 / w \<or> m = 792 / h" by (auto simp: m_def min_def)
  have upper: "s2 \<le> m * (1 + ?u)"
  proof -
    have "s2 \<le> 1 * (1 + ?u)" using le1 by simp
    with w2 h2 m_is show ?thesis by auto
  qed
  have lower: "m * (1 - ?u) \<le> s2"
  proof -
    have pos: "0 \<le> 1 - ?u" by simp
    have m1: "m * (1 - ?u) \<le> 1 * (1 - ?u)" using m_le(1) pos by (rule mult_right_mono)
    have mw: "m * (1 - ?u) \<le> 612 / w * (1 - ?u)" using m_le(2) pos by (rule mult_right_mono)
    have mh: "m * (1 - ?u) \<le> 792 / h * (1 - ?u)" using m_le(3) pos by (rule mult_right_mono)
    from o2 show ?thesis
    proof
      assume "fl (612 / w) = Finite s2 \<and> 612 / w * (1 - ?u) \<le> s2"
      with mw show ?thesis by simp
    next
      assume eq: "s2 = s1"
      from o1 show ?thesis
      proof
        assume "s1 = 1"
        with eq m1 show ?thesis by simp
      next
        assume "fl (792 / h) = Finite s1 \<and> 792 / h * (1 - ?u) \<le> s1"
        with eq mh show ?thesis by simp
      qed
    qed
  qed
  have "\<bar>s2 - m\<bar> \<le> m / 2 ^ 53"
  proof (rule abs_leI)
    from upper show "s2 - m \<le> m / 2 ^ 53" by (simp add: algebra_simps)
    from lower show "- (s2 - m) \<le> m / 2 ^ 53" by (simp add: algebra_simps)
  qed
  then have near: "\<bar>s2 - ?m\<bar> \<le> ?m / 2 ^ 53" by (simp only: m_def)
  have fitw: "w * s2 \<le> 612 * (1 + ?u)"
    using w2 assms(3) by (simp add: pos_le_divide_eq mult.commute)
  have fith: "h * s2 \<le> 792 * (1 + ?u)"
    using h2 assms(4) by (simp add: field_simps)
  from run origin s2(1) le1 near fitw fith
  show "\<exists>s. fitToScale \<lparr>left = l, top = t, width = Finite w, height = Finite h\<rparr> (Finite 1)
               = Finite s
            \<and> (s = 1 \<or> fl (612 / w) = Finite s \<or> fl (792 / h) = Finite s)
            \<and> 0 < s \<and> s \<le> 1
            \<and> \<bar>s - ?m\<bar> \<le> ?m / 2 ^ 53
            \<and> w * s \<le> 612 * (1 + ?u) \<and> h * s \<le> 792 * (1 + ?u)"
    by (intro exI [of _ s2] conjI)
next
  show "fitToScale \<lparr>left = l, top = t, width = Finite 1224, height = Finite 1584\<rparr> (Finite 1)
          = Finite (1 / 2)"
    by (rule fitToScale_half)
qed

text \<open>
  Claim C9, as stated, fails where a quotient is not a double: for a width of 1063 the
  scale is the double nearest to 612/1063, which is above it, so the scaled width is above
  612 and the scale is not the minimum of 1, 612/width and 792/height.
\<close>

theorem fitToScale_exceeds_page_counterexample:
  "is_double 1063 \<and> is_double 100
   \<and> fitToScale \<lparr>left = Finite 0, top = Finite 0, width = Finite 1063, height = Finite 100\<rparr>
         (Finite 1) = Finite (5185706438289264 / 2 ^ 53)
   \<and> 612 < 1063 * (5185706438289264 / 2 ^ 53 :: rat)
   \<and> (5185706438289264 / 2 ^ 53 :: rat) \<noteq> min 1 (min (612 / 1063) (792 / 100))"
proof -
  have w: "is_double 1063" by (rule is_double_moderate, simp, rule nearest_1063, simp)
  have h: "is_double 100" by (rule is_double_moderate, simp, rule nearest_100, simp)
  have a: "fl 792 = Finite 792" by (rule fl_moderate, simp, rule nearest_792, simp)
  have b: "fl 612 = Finite 612" by (rule fl_moderate, simp, rule nearest_612, simp)
  have c: "fl (612 / 1063) = Finite (5185706438289264 / 2 ^ 53)"
    by (rule fl_moderate, simp, rule nearest_612_1063, simp)
  have run: "fitToScale \<lparr>left = Finite 0, top = Finite 0, width = Finite 1063,
                 height = Finite 100\<rparr> (Finite 1) = Finite (5185706438289264 / 2 ^ 53)"
    using a b c by (simp add: fitToScale_def pageWidth_def pageHeight_def js_div_positive)
  from w h run show ?thesis by simp
qed

theorem fitToScale_default_rounded_witness:
  "is_double 2000 \<and> is_double 1000
   \<and> fitToScale \<lparr>left = Finite 0, top = Finite 0, width = Finite 2000, height = Finite 1000\<rparr>
         (Finite 1) = Finite (5512405943901487 / 2 ^ 54)
   \<and> fl (612 / 2000) = Finite (5512405943901487 / 2 ^ 54)
   \<and> \<bar>5512405943901487 / 2 ^ 54 - 153 / 500\<bar> \<le> (153 / 500 :: rat) / 2 ^ 53
   \<and> (5512405943901487 / 2 ^ 54 :: rat) \<noteq> 153 / 500
   \<and> 2000 * (5512405943901487 / 2 ^ 54) \<le> 612 * (1 + 1 / 2 ^ 53 :: rat)
   \<and> 1000 * (5512405943901487 / 2 ^ 54) \<le> 792 * (1 + 1 / 2 ^ 53 :: rat)"
proof -
  let ?r = "\<lparr>left = Finite 0, top = Finite 0, width = Finite 2000, height = Finite 1000\<rparr>"
  let ?c = "5512405943901487 / 2 ^ 54 :: rat"
  have w: "is_double 2000" by (rule is_double_moderate, simp, rule nearest_2000, simp)
  have h: "is_double 1000" by (rule is_double_moderate, simp, rule nearest_1000, simp)
  have a: "fl 792 = Finite 792" by (rule fl_moderate, simp, rule nearest_792, simp)
  have b: "fl (792 / 1000) = Finite (7133701809754866 / 2 ^ 53)"
    by (rule fl_moderate, simp, rule nearest_792_1000, simp)
  have c: "fl (612 / (7133701809754866 / 2 ^ 53)) = Finite (6796980971706181 / 2 ^ 43)"
    by (rule fl_moderate, simp, rule nearest_back, simp)
  have d: "fl (612 / 2000) = Finite ?c"
    by (rule fl_moderate, simp, rule nearest_612_2000, simp)
  have run: "fitToScale ?r (Finite 1) = Finite ?c"
    using a b c d by (simp add: fitToScale_def pageWidth_def pageHeight_def js_div_positive)
  from fitToScale_default_rounded [of 2000 1000 "Finite 0" "Finite 0", OF w h]
  obtain s where s: "fitToScale ?r (Finite 1) = Finite s"
    and near: "\<bar>s - min 1 (min (612 / 2000) (792 / 1000))\<bar>
               \<le> min 1 (min (612 / 2000) (792 / 1000)) / 2 ^ 53"
    and fit: "2000 * s \<le> 612 * (1 + 1 / 2 ^ 53)" "1000 * s \<le> 792 * (1 + 1 / 2 ^ 53)"
    by auto
  from s run have eq: "s = ?c" by simp
  from near have near': "\<bar>?c - 153 / 500\<bar> \<le> (153 / 500 :: rat) / 2 ^ 53"
    unfolding eq by simp
  from w h run d near' fit [unfolded eq] show ?thesis by simp
qed

subsection \<open>The JSON round trip\<close>

lemma JSON_roundtrip_array:
  "map_option JSON_parse (JSON_stringify (JArr arr)) = Some (JArr (JSON_copy arr))"
  by (simp add: JSON_copy_def copy_element_def)

lemma length_JSON_copy: "length (JSON_copy arr) = length arr"
  by (simp add: JSON_copy_def)

lemma concat_singletons: "concat (map (\<lambda>x. [x]) xs) = xs"
  by (induction xs) simp_all

text \<open>Parsing a JSON text and writing it again gives the same text.\<close>

lemma stringify_parse: "JSON_stringify (JSON_parse j) = Some j"
proof (induction j)
  case (TArray js)
  then show ?case by (simp add: array_slot_def map_idI)
next
  case (TObject fs)
  have ih: "JSON_stringify (JSON_parse (snd kv)) = Some (snd kv)" if "kv \<in> set fs" for kv
    using TObject [of kv "snd kv"] that by (cases kv) auto
  have "concat (map (\<lambda>kv. object_slot (fst kv) (JSON_stringify (JSON_parse (snd kv)))) fs)
        = concat (map (\<lambda>kv. [kv]) fs)"
    by (rule arg_cong [where f = concat], rule map_cong) (simp_all add: ih object_slot_def)
  then show ?case by (simp add: comp_def concat_singletons)
qed simp_all

lemma copy_element_idem: "copy_element (copy_element v) = copy_element v"
  by (simp add: copy_element_def stringify_parse array_slot_def)

lemma JSON_copy_idem: "JSON_copy (JSON_copy s) = JSON_copy s"
  by (simp add: JSON_copy_def copy_element_idem)

lemma copy_element_JSON_copy_nth:
  "k < length s \<Longrightarrow> copy_element (JSON_copy s ! k) = JSON_copy s ! k"
  by (simp add: JSON_copy_def copy_element_idem)

lemma JSON_copy_update:
  "JSON_copy (xs[k := v]) = (JSON_copy xs)[k := copy_element v]"
  by (simp add: JSON_copy_def map_update)

subsection \<open>\<^verbatim>\<open>insertBefore\<close>\<close>

lemma insertBefore_inserted_at:
  "insertBefore s i x = inserted_at (JSON_copy s) (nat (min (max 0 i) (int (length s)))) x"
  by (simp add: insertBefore_def splice_insert_def inserted_at_def Let_def length_JSON_copy)

lemma length_inserted_at: "length (inserted_at s p x) = length s + 1"
  by (simp add: inserted_at_def)

lemma inserted_at_nth: "p \<le> length s \<Longrightarrow> inserted_at s p x ! p = x"
  by (simp add: inserted_at_def nth_append)

text \<open>
  Claim C7. \<open>insertBefore s i x\<close> is a new sequence of length \<open>length s + 1\<close>: the JSON
  copy of \<open>s\<close> with \<open>x\<close> inserted at position \<open>max 0 i\<close>, clamped to at most
  \<open>length s\<close>. For \<open>0 \<le> i \<le> length s\<close> the result has \<open>x\<close> at position \<open>i\<close>; a
  negative \<open>i\<close> inserts at position 0; an \<open>i\<close> beyond the length appends at the end.
  Where the round trip changes nothing, the other elements are those of \<open>s\<close> itself.
\<close>

theorem insertBefore_inserts_at_clamped_index:
  "insertBefore s i x = inserted_at (JSON_copy s) (nat (min (max 0 i) (int (length s)))) x
   \<and> length (insertBefore s i x) = length s + 1
   \<and> (0 \<le> i \<and> i \<le> int (length s) \<longrightarrow> insertBefore s i x ! nat i = x)
   \<and> (i < 0 \<longrightarrow> insertBefore s i x = x # JSON_copy s)
   \<and> (int (length s) < i \<longrightarrow> insertBefore s i x = JSON_copy s @ [x])
   \<and> (json_representable s \<longrightarrow>
        insertBefore s i x = inserted_at s (nat (min (max 0 i) (int (length s)))) x)"
proof -
  have a: "length (insertBefore s i x) = length s + 1"
    by (simp add: insertBefore_inserted_at length_inserted_at length_JSON_copy)
  have b: "insertBefore s i x ! nat i = x" if "0 \<le> i \<and> i \<le> int (length s)"
  proof -
    from that have "insertBefore s i x = inserted_at (JSON_copy s) (nat i) x"
      by (simp add: insertBefore_inserted_at min_def max_def)
    moreover from that have "nat i \<le> length (JSON_copy s)" by (auto simp: length_JSON_copy)
    ultimately show ?thesis by (simp only: inserted_at_nth)
  qed
  have c: "insertBefore s i x = x # JSON_copy s" if "i < 0"
    using that by (simp add: insertBefore_inserted_at inserted_at_def)
  have d: "insertBefore s i x = JSON_copy s @ [x]" if "int (length s) < i"
    using that by (simp add: insertBefore_inserted_at inserted_at_def length_JSON_copy)
  have e: "insertBefore s i x = inserted_at s (nat (min (max 0 i) (int (length s)))) x"
    if "json_representable s"
    using that by (simp add: insertBefore_inserted_at json_representable_def)
  from insertBefore_inserted_at a b c d e show ?thesis by blast
qed

theorem insertBefore_inserts_at_clamped_index_witness:
  "insertBefore [JStr ''a'', JUndefined] 1 (JStr ''x'') ! 1 = JStr ''x''
   \<and> insertBefore [JStr ''a'', JUndefined] 1 (JStr ''x'') = [JStr ''a'', JStr ''x'', JNull]
   \<and> insertBefore [JStr ''a'', JStr ''b''] (- 3) (JStr ''x'') = [JStr ''x'', JStr ''a'', JStr ''b'']
   \<and> insertBefore [JStr ''a'', JStr ''b''] 7 (JStr ''x'') = [JStr ''a'', JStr ''b'', JStr ''x'']
   \<and> json_representable [JStr ''a'', JStr ''b'']"
  using insertBefore_inserts_at_clamped_index [of "[JStr ''a'', JUndefined]" 1 "JStr ''x''"]
    insertBefore_inserts_at_clamped_index [of "[JStr ''a'', JStr ''b'']" "- 3" "JStr ''x''"]
    insertBefore_inserts_at_clamped_index [of "[JStr ''a'', JStr ''b'']" 7 "JStr ''x''"]
  by (simp add: JSON_copy_def copy_element_def array_slot_def json_representable_def
        inserted_at_def)

subsection \<open>\<^verbatim>\<open>insertAfter\<close>\<close>

lemma insertAfter_inserted_at:
  "insertAfter s i x = inserted_at (JSON_copy s)
     (nat (if i + 1 < 0 then max 0 (int (length s) + (i + 1))
           else min (int (length s)) (i + 1))) x"
  by (simp add: insertAfter_def splice_insert_def inserted_at_def Let_def length_JSON_copy
        min_def max_def)

text \<open>
  Claim C5, as stated, fails twice. For \<open>i < -1\<close> the start handed to \<^verbatim>\<open>splice\<close> is
  negative and counts from the end: in a three-element array, \<open>i = -2\<close> puts the item
  at position 2, not at \<open>min 3 (i + 1) = -1\<close>. And the sequence the item is inserted
  into is the JSON copy, which differs from \<open>s\<close> where \<open>s\<close> holds \<^verbatim>\<open>undefined\<close>.
\<close>

theorem insertAfter_position_counterexample:
  "insertAfter [JStr ''a'', JStr ''b'', JStr ''c''] (- 2) (JStr ''x'')
     = [JStr ''a'', JStr ''b'', JStr ''x'', JStr ''c'']
   \<and> insertAfter [JStr ''a'', JStr ''b'', JStr ''c''] (- 2) (JStr ''x'')
     \<noteq> inserted_at [JStr ''a'', JStr ''b'', JStr ''c'']
          (nat (min (int (length [JStr ''a'', JStr ''b'', JStr ''c''])) (- 2 + 1))) (JStr ''x'')
   \<and> insertAfter [JUndefined] 0 (JStr ''x'') = [JNull, JStr ''x'']
   \<and> insertAfter [JUndefined] 0 (JStr ''x'')
     \<noteq> inserted_at [JUndefined] (nat (min (int (length [JUndefined])) (0 + 1))) (JStr ''x'')"
  by (simp add: insertAfter_def splice_insert_def inserted_at_def JSON_copy_def
        copy_element_def array_slot_def)

text \<open>
  Claim C5, amended. \<open>insertAfter s i x\<close> is the JSON copy of \<open>s\<close> with \<open>x\<close> inserted;
  for \<open>i \<ge> -1\<close> the position is \<open>min (length s) (i + 1)\<close>, and for \<open>i < -1\<close> it is
  \<open>max 0 (length s + i + 1)\<close>. With \<open>i = length s - 1\<close> the item is appended at the
  end. Where the round trip changes nothing, the result is \<open>s\<close> itself with \<open>x\<close> inserted.
\<close>

theorem insertAfter_inserts_after_index:
  "insertAfter s i x = inserted_at (JSON_copy s)
     (nat (if i + 1 < 0 then max 0 (int (length s) + (i + 1))
           else min (int (length s)) (i + 1))) x
   \<and> (- 1 \<le> i \<longrightarrow>
        insertAfter s i x = inserted_at (JSON_copy s) (nat (min (int (length s)) (i + 1))) x)
   \<and> (i = int (length s) - 1 \<longrightarrow> insertAfter s i x = JSON_copy s @ [x])
   \<and> (- 1 \<le> i \<and> json_representable s \<longrightarrow>
        insertAfter s i x = inserted_at s (nat (min (int (length s)) (i + 1))) x)"
proof -
  have b: "insertAfter s i x = inserted_at (JSON_copy s) (nat (min (int (length s)) (i + 1))) x"
    if "- 1 \<le> i"
    using that by (simp add: insertAfter_inserted_at)
  have c: "insertAfter s i x = JSON_copy s @ [x]" if "i = int (length s) - 1"
    using that by (simp add: insertAfter_inserted_at inserted_at_def length_JSON_copy)
  have d: "insertAfter s i x = inserted_at s (nat (min (int (length s)) (i + 1))) x"
    if "- 1 \<le> i \<and> json_representable s"
    using that b by (simp add: json_representable_def)
  from insertAfter_inserted_at b c d show ?thesis by blast
qed

theorem insertAfter_inserts_after_index_witness:
  "insertAfter [JStr ''a'', JStr ''b'', JStr ''c''] 0 (JStr ''x'')
     = [JStr ''a'', JStr ''x'', JStr ''b'', JStr ''c'']
   \<and> insertAfter [JStr ''a'', JStr ''b'', JStr ''c''] 2 (JStr ''x'')
     = [JStr ''a'', JStr ''b'', JStr ''c'', JStr ''x'']
   \<and> insertAfter [JStr ''a'', JStr ''b'', JStr ''c''] (- 3) (JStr ''x'')
     = [JStr ''a'', JStr ''x'', JStr ''b'', JStr ''c'']
   \<and> json_representable [JStr ''a'', JStr ''b'', JStr ''c'']"
  using insertAfter_inserts_after_index [of "[JStr ''a'', JStr ''b'', JStr ''c'']" 0 "JStr ''x''"]
    insertAfter_inserts_after_index [of "[JStr ''a'', JStr ''b'', JStr ''c'']" 2 "JStr ''x''"]
    insertAfter_inserts_after_index [of "[JStr ''a'', JStr ''b'', JStr ''c'']" "- 3" "JStr ''x''"]
  by (simp add: JSON_copy_def copy_element_def array_slot_def json_representable_def
        inserted_at_def)

subsection \<open>\<^verbatim>\<open>swapElements\<close>\<close>

lemma swap_twice_list:
  assumes "i < length c" "j < length c"
  shows "(c[i := c ! j, j := c ! i])[i := (c[i := c ! j, j := c ! i]) ! j,
           j := (c[i := c ! j, j := c ! i]) ! i] = c"
  using assms by (auto simp: list_eq_iff_nth_eq nth_list_update)

lemma swapElements_in_range:
  assumes "0 \<le> i" "i < int (length s)" "0 \<le> j" "j < int (length s)" "length s < 2 ^ 32"
  shows "swapElements s i j =
         (JSON_copy s)[nat i := JSON_copy s ! nat j, nat j := JSON_copy s ! nat i]"
  using assms
  by (simp add: swapElements_def Let_def js_get_def js_set_def is_array_index_def
        length_JSON_copy)

lemma swapElements_twice_copy:
  assumes "0 \<le> i" "i < int (length s)" "0 \<le> j" "j < int (length s)" "length s < 2 ^ 32"
  shows "swapElements (swapElements s i j) i j = JSON_copy s"
proof -
  let ?c = "JSON_copy s"
  let ?t = "?c[nat i := ?c ! nat j, nat j := ?c ! nat i]"
  have i: "nat i < length s" and j: "nat j < length s" using assms by simp_all
  have t: "swapElements s i j = ?t" using assms by (rule swapElements_in_range)
  have len: "length ?t = length s" by (simp add: length_JSON_copy)
  have stable: "JSON_copy ?t = ?t"
    using i j by (simp add: JSON_copy_update JSON_copy_idem copy_element_JSON_copy_nth)
  have "swapElements ?t i j
        = (JSON_copy ?t)[nat i := JSON_copy ?t ! nat j, nat j := JSON_copy ?t ! nat i]"
    using assms len by (intro swapElements_in_range) simp_all
  also have "\<dots> = ?t[nat i := ?t ! nat j, nat j := ?t ! nat i]" by (simp only: stable)
  also have "\<dots> = ?c" using i j by (intro swap_twice_list) (simp_all add: length_JSON_copy)
  finally show ?thesis by (simp only: t)
qed

text \<open>
  Claim C6, as stated, fails twice. An index past the end extends the copy: swapping
  positions 0 and 1 of a one-element array twice gives a two-element array. And the
  round trip alone changes a sequence that holds \<^verbatim>\<open>undefined\<close>, with both indices in
  range.
\<close>

theorem swapElements_twice_counterexample:
  "swapElements (swapElements [JStr ''a''] 0 1) 0 1 = [JStr ''a'', JNull]
   \<and> swapElements (swapElements [JStr ''a''] 0 1) 0 1 \<noteq> [JStr ''a'']
   \<and> swapElements (swapElements [JUndefined, JStr ''b''] 0 1) 0 1 = [JNull, JStr ''b'']
   \<and> swapElements (swapElements [JUndefined, JStr ''b''] 0 1) 0 1 \<noteq> [JUndefined, JStr ''b'']"
  by (simp add: swapElements_def js_get_def js_set_def is_array_index_def JSON_copy_def
        copy_element_def array_slot_def)

text \<open>
  Claim C6, amended. For indices \<open>i\<close> and \<open>j\<close> within the sequence, swapping twice
  gives the JSON copy of the sequence, hence the sequence itself where the round trip
  changes nothing. (A JavaScript array has fewer than \<open>2^32\<close> elements.)
\<close>

theorem swapElements_twice_in_range:
  assumes "0 \<le> i" "i < int (length s)" "0 \<le> j" "j < int (length s)" "length s < 2 ^ 32"
  shows "swapElements (swapElements s i j) i j = JSON_copy s
         \<and> (json_representable s \<longrightarrow> swapElements (swapElements s i j) i j = s)"
  using swapElements_twice_copy [OF assms] by (simp add: json_representable_def)

theorem swapElements_twice_in_range_witness:
  "swapElements (swapElements [JStr ''a'', JNull, JStr ''c''] 0 2) 0 2
     = [JStr ''a'', JNull, JStr ''c'']
   \<and> json_representable [JStr ''a'', JNull, JStr ''c'']"
  using swapElements_twice_in_range [where i = 0 and j = 2 and s = "[JStr ''a'', JNull, JStr ''c'']"]
  by (simp add: JSON_copy_def copy_element_def array_slot_def json_representable_def)

subsection \<open>The groups of \<^verbatim>\<open>chunk\<close>\<close>

lemma chunk_loop_step:
  "index < length array \<Longrightarrow> 0 < sz \<Longrightarrow>
   chunk_loop array sz index
     = take sz (drop index array) # chunk_loop array sz (index + sz)"
  by (subst chunk_loop.simps) (simp add: baseSlice_def)

lemma chunk_loop_stop: "\<not> (index < length array \<and> 0 < sz) \<Longrightarrow> chunk_loop array sz index = []"
  by (subst chunk_loop.simps) simp

lemma concat_chunk_loop: "0 < n \<Longrightarrow> concat (chunk_loop xs n i) = drop i xs"
proof (induction xs n i rule: chunk_loop.induct)
  case (1 array sz index)
  show ?case
  proof (cases "index < length array")
    case True
    with 1 have ih: "concat (chunk_loop array sz (index + sz)) = drop (index + sz) array"
      by simp
    have "take sz (drop index array) @ drop (index + sz) array = drop index array"
      by (metis add.commute append_take_drop_id drop_drop)
    with ih True 1(2) show ?thesis by (simp add: chunk_loop_step)
  next
    case False
    then show ?thesis by (simp add: chunk_loop_stop)
  qed
qed

lemma chunk_loop_lengths:
  "g \<in> set (chunk_loop xs n i) \<Longrightarrow> 0 < length g \<and> length g \<le> n"
proof (induction xs n i rule: chunk_loop.induct)
  case (1 array sz index)
  show ?case
  proof (cases "index < length array \<and> 0 < sz")
    case True
    with 1(2) have "g = take sz (drop index array) \<or> g \<in> set (chunk_loop array sz (index + sz))"
      by (simp add: chunk_loop_step)
    then show ?thesis
    proof
      assume "g = take sz (drop index array)"
      with True show ?thesis by simp
    next
      assume "g \<in> set (chunk_loop array sz (index + sz))"
      with True show ?thesis by (intro 1(1))
    qed
  next
    case False
    with 1(2) show ?thesis by (simp add: chunk_loop_stop)
  qed
qed

lemma chunk_loop_butlast:
  "g \<in> set (butlast (chunk_loop xs n i)) \<Longrightarrow> length g = n"
proof (induction xs n i rule: chunk_loop.induct)
  case (1 array sz index)
  show ?case
  proof (cases "index < length array \<and> 0 < sz")
    case True
    note step = chunk_loop_step [of index array sz]
    show ?thesis
    proof (cases "index + sz < length array")
      case more: True
      then have "chunk_loop array sz (index + sz) \<noteq> []"
        using True by (simp add: chunk_loop_step)
      with 1(2) True
      have "g = take sz (drop index array) \<or> g \<in> set (butlast (chunk_loop array sz (index + sz)))"
        by (simp add: step)
      then show ?thesis
      proof
        assume "g = take sz (drop index array)"
        with more show ?thesis by simp
      next
        assume "g \<in> set (butlast (chunk_loop array sz (index + sz)))"
        with True show ?thesis by (intro 1(1))
      qed
    next
      case False
      then have "chunk_loop array sz (index + sz) = []" by (simp add: chunk_loop_stop)
      with 1(2) True show ?thesis by (simp add: step)
    qed
  next
    case False
    with 1(2) show ?thesis by (simp add: chunk_loop_stop)
  qed
qed

lemma chunk_nonpositive: "n < 1 \<Longrightarrow> chunk xs n = []"
  by (simp add: chunk_def)

lemma chunk_positive: "1 \<le> n \<Longrightarrow> chunk xs n = chunk_loop xs (nat n) 0"
  by (simp add: chunk_def Let_def chunk_loop_stop)

lemma concat_chunk: "1 \<le> n \<Longrightarrow> concat (chunk xs n) = xs"
  by (simp add: chunk_positive concat_chunk_loop)


subsection \<open>The promise chain of \<^verbatim>\<open>promiseChunk\<close>\<close>

lemma reducer_rejected:
  "p w = (Rejected e, w1) \<Longrightarrow> reducer cb p g w = (Rejected e, w1)"
  by (simp add: reducer_def promise_then_def)

lemma reducer_pending:
  "p w = (Pending, w1) \<Longrightarrow> reducer cb p g w = (Pending, w1)"
  by (simp add: reducer_def promise_then_def)

lemma reducer_fulfilled:
  assumes "p w = (Fulfilled rs, w1)" and "cb g (cb_state w1) = (out, s1)"
  shows "reducer cb p g w =
           (case out of Fulfilled v \<Rightarrow> Fulfilled (array_concat rs v)
                      | Rejected e \<Rightarrow> Rejected e | Pending \<Rightarrow> Pending,
            \<lparr>cb_state = s1, trace = trace w1 @ Invoked g # settle_events g out\<rparr>)"
  using assms
  by (cases out) (simp_all add: reducer_def promise_then_def invoke_def Promise_resolve_def)

lemma chain_rejected:
  "p w = (Rejected e, w1) \<Longrightarrow> foldl (reducer cb) p gs w = (Rejected e, w1)"
  by (induction gs arbitrary: p) (simp_all add: reducer_rejected)

lemma chain_pending:
  "p w = (Pending, w1) \<Longrightarrow> foldl (reducer cb) p gs w = (Pending, w1)"
  by (induction gs arbitrary: p) (simp_all add: reducer_pending)

lemma array_concat_spread: "array_concat rs v = rs @ spread v"
  by (simp add: array_concat_def spread_def split: jsval.splits)

lemma chain_fulfilled:
  assumes "p w = (Fulfilled rs, w1)"
    and "run_groups cb gs (cb_state w1) = Some (vs, s')"
  shows "foldl (reducer cb) p gs w =
           (Fulfilled (rs @ concat (map spread vs)),
            \<lparr>cb_state = s', trace = trace w1 @ concat (map2 group_events gs vs)\<rparr>)"
  using assms
proof (induction gs arbitrary: p rs w1 vs)
  case Nil
  then show ?case by simp
next
  case (Cons g gs)
  obtain out s1 where cb: "cb g (cb_state w1) = (out, s1)" by (cases "cb g (cb_state w1)")
  with Cons.prems(2) obtain v vs' where
    out: "out = Fulfilled v" and rest: "run_groups cb gs s1 = Some (vs', s')" and vs: "vs = v # vs'"
    by (auto split: settled.splits option.splits)
  let ?w2 = "\<lparr>cb_state = s1, trace = trace w1 @ [Invoked g, Settled g (Fulfilled v)]\<rparr>"
  have "reducer cb p g w = (Fulfilled (rs @ spread v), ?w2)"
    using reducer_fulfilled [where p = p and w = w and cb = cb and g = g, OF Cons.prems(1) cb] out
    by (simp add: settle_events_def array_concat_spread)
  moreover have "run_groups cb gs (cb_state ?w2) = Some (vs', s')" using rest by simp
  ultimately have "foldl (reducer cb) (reducer cb p g) gs w =
      (Fulfilled ((rs @ spread v) @ concat (map spread vs')),
       \<lparr>cb_state = s', trace = trace ?w2 @ concat (map2 group_events gs vs')\<rparr>)"
    by (rule Cons.IH)
  then show ?case by (simp add: vs group_events_def)
qed

lemma chain_rejection_last:
  assumes "p w = (out1, w1)"
    and "foldl (reducer cb) p gs w = (out, w')"
    and "Settled g (Rejected e) \<in> set (trace w')"
  shows "Settled g (Rejected e) \<in> set (trace w1)
         \<or> (out = Rejected e \<and> (\<exists>evs. trace w' = evs @ [Invoked g, Settled g (Rejected e)]))"
  using assms
proof (induction gs arbitrary: p out1 w1)
  case Nil
  then show ?case by simp
next
  case (Cons g0 gs)
  show ?case
  proof (cases out1)
    case (Rejected e1)
    with Cons.prems(1) have "foldl (reducer cb) p (g0 # gs) w = (Rejected e1, w1)"
      by (intro chain_rejected) simp
    with Cons.prems show ?thesis by simp
  next
    case Pending
    with Cons.prems(1) have "foldl (reducer cb) p (g0 # gs) w = (Pending, w1)"
      by (intro chain_pending) simp
    with Cons.prems show ?thesis by simp
  next
    case (Fulfilled rs)
    obtain o0 s1 where cb: "cb g0 (cb_state w1) = (o0, s1)" by (cases "cb g0 (cb_state w1)")
    let ?w2 = "\<lparr>cb_state = s1, trace = trace w1 @ Invoked g0 # settle_events g0 o0\<rparr>"
    let ?o2 = "case o0 of Fulfilled v \<Rightarrow> Fulfilled (array_concat rs v)
                        | Rejected e \<Rightarrow> Rejected e | Pending \<Rightarrow> Pending"
    have step: "reducer cb p g0 w = (?o2, ?w2)"
      using Cons.prems(1) Fulfilled cb by (intro reducer_fulfilled) simp_all
    have run: "foldl (reducer cb) (reducer cb p g0) gs w = (out, w')"
      using Cons.prems(2) by simp
    from Cons.IH [OF step run Cons.prems(3)]
    consider (old) "Settled g (Rejected e) \<in> set (trace ?w2)"
      | (last) "out = Rejected e \<and> (\<exists>evs. trace w' = evs @ [Invoked g, Settled g (Rejected e)])"
      by blast
    then show ?thesis
    proof cases
      case last
      then show ?thesis by blast
    next
      case old
      show ?thesis
      proof (cases o0)
        case (Rejected e0)
        with step have "foldl (reducer cb) (reducer cb p g0) gs w = (Rejected e0, ?w2)"
          by (intro chain_rejected) simp
        with run have o: "out = Rejected e0" and w: "w' = ?w2" by simp_all
        from old Rejected have "Settled g (Rejected e) \<in> set (trace w1) \<or> (g = g0 \<and> e = e0)"
          by (auto simp: settle_events_def)
        then show ?thesis
        proof
          assume "g = g0 \<and> e = e0"
          with o w Rejected show ?thesis by (simp add: settle_events_def)
        qed simp
      next
        case Pending
        with old show ?thesis by (simp add: settle_events_def)
      next
        case (Fulfilled v)
        with old show ?thesis by (simp add: settle_events_def)
      qed
    qed
  qed
qed


lemma invoked_groups_append:
  "invoked_groups (xs @ ys) = invoked_groups xs @ invoked_groups ys"
  by (simp add: invoked_groups_def)

lemma invoked_groups_invoke:
  "invoked_groups (Invoked g # settle_events g out) = [g]"
  by (cases out) (simp_all add: invoked_groups_def settle_events_def)

lemma chain_invoked_prefix:
  assumes "p w = (out1, w1)" and "foldl (reducer cb) p gs w = (out, w')"
  shows "\<exists>k\<le>length gs. invoked_groups (trace w') = invoked_groups (trace w1) @ take k gs"
  using assms
proof (induction gs arbitrary: p out1 w1)
  case Nil
  then show ?case by simp
next
  case (Cons g0 gs)
  show ?case
  proof (cases out1)
    case (Rejected e1)
    with Cons.prems(1) have "foldl (reducer cb) p (g0 # gs) w = (Rejected e1, w1)"
      by (intro chain_rejected) simp
    with Cons.prems(2) have "w' = w1" by simp
    then show ?thesis by (intro exI [of _ 0]) simp
  next
    case Pending
    with Cons.prems(1) have "foldl (reducer cb) p (g0 # gs) w = (Pending, w1)"
      by (intro chain_pending) simp
    with Cons.prems(2) have "w' = w1" by simp
    then show ?thesis by (intro exI [of _ 0]) simp
  next
    case (Fulfilled rs)
    obtain o0 s1 where cb: "cb g0 (cb_state w1) = (o0, s1)" by (cases "cb g0 (cb_state w1)")
    let ?w2 = "\<lparr>cb_state = s1, trace = trace w1 @ Invoked g0 # settle_events g0 o0\<rparr>"
    let ?o2 = "case o0 of Fulfilled v \<Rightarrow> Fulfilled (array_concat rs v)
                        | Rejected e \<Rightarrow> Rejected e | Pending \<Rightarrow> Pending"
    have step: "reducer cb p g0 w = (?o2, ?w2)"
      using Cons.prems(1) Fulfilled cb by (intro reducer_fulfilled) simp_all
    have run: "foldl (reducer cb) (reducer cb p g0) gs w = (out, w')"
      using Cons.prems(2) by simp
    from Cons.IH [OF step run] obtain k where
      k: "k \<le> length gs" "invoked_groups (trace w') = invoked_groups (trace ?w2) @ take k gs"
      by blast
    then have "invoked_groups (trace w') = invoked_groups (trace w1) @ take (Suc k) (g0 # gs)"
      by (simp add: invoked_groups_append invoked_groups_invoke)
    with k(1) show ?thesis by (intro exI [of _ "Suc k"]) simp
  qed
qed

lemma promiseChunk_empty: "promiseChunk [] n cb w = (Fulfilled [], w)"
  by (simp add: promiseChunk_def Promise_resolve_def)

lemma promiseChunk_chain:
  "promiseChunk things n cb w = foldl (reducer cb) (Promise_resolve []) (chunk things n) w"
  by (simp add: promiseChunk_def chunk_def)

lemma promiseChunk_small_size: "n < 1 \<Longrightarrow> promiseChunk things n cb w = (Fulfilled [], w)"
  by (simp add: promiseChunk_chain chunk_nonpositive Promise_resolve_def)

lemma promiseChunk_fulfilled:
  assumes "run_groups cb (chunk things n) (cb_state w) = Some (vs, s')"
  shows "promiseChunk things n cb w =
           (Fulfilled (concat (map spread vs)),
            \<lparr>cb_state = s', trace = trace w @ concat (map2 group_events (chunk things n) vs)\<rparr>)"
proof -
  have "Promise_resolve [] w = (Fulfilled [], w)" by (simp add: Promise_resolve_def)
  from chain_fulfilled [where p = "Promise_resolve []" and w = w, OF this assms]
  show ?thesis by (simp add: promiseChunk_chain)
qed

lemma run_groups_map:
  assumes "\<And>g s. cb g s = (Fulfilled (JArr (map f g)), s)"
  shows "run_groups cb gs s = Some (map (\<lambda>g. JArr (map f g)) gs, s)"
  by (induction gs) (simp_all add: assms)

lemma concat_spread_map:
  "concat (map spread (map (\<lambda>g. JArr (map f g)) gs)) = map f (concat gs)"
  by (induction gs) (simp_all add: spread_def)

lemma chunk_five_by_two:
  "chunk [JStr ''a'', JStr ''b'', JStr ''c'', JStr ''d'', JStr ''e''] 2
     = [[JStr ''a'', JStr ''b''], [JStr ''c'', JStr ''d''], [JStr ''e'']]"
  by (simp add: chunk_def chunk_loop_step chunk_loop_stop)

text \<open>
  Claim C1, as stated, fails for a chunk size below 1: there are no groups at all, so
  the list is not partitioned, the callback is never invoked and the result is empty.
  It also fails for a callback whose promise is rejected: nothing is resolved then.
\<close>

theorem promiseChunk_size_zero_counterexample:
  "promiseChunk [JStr ''a'', JStr ''b'', JStr ''c''] 0
     (\<lambda>g s. (Fulfilled (JArr g), Suc s)) \<lparr>cb_state = 0, trace = []\<rparr>
     = (Fulfilled [], \<lparr>cb_state = 0, trace = []\<rparr>)
   \<and> concat (chunk [JStr ''a'', JStr ''b'', JStr ''c''] 0) \<noteq> [JStr ''a'', JStr ''b'', JStr ''c'']
   \<and> fst (promiseChunk [JStr ''a'', JStr ''b'', JStr ''c'', JStr ''d'', JStr ''e''] 2
          (\<lambda>g s. (Rejected (JStr ''boom''), Suc s)) \<lparr>cb_state = 0, trace = []\<rparr>)
     = Rejected (JStr ''boom'')"
proof -
  have "promiseChunk [JStr ''a'', JStr ''b'', JStr ''c''] 0
          (\<lambda>g s. (Fulfilled (JArr g), Suc s)) \<lparr>cb_state = 0, trace = []\<rparr>
        = (Fulfilled [], \<lparr>cb_state = 0, trace = []\<rparr>)"
    and "concat (chunk [JStr ''a'', JStr ''b'', JStr ''c''] 0)
         \<noteq> [JStr ''a'', JStr ''b'', JStr ''c'']"
    by (simp_all add: promiseChunk_def chunk_def Promise_resolve_def)
  moreover
  have "fst (promiseChunk [JStr ''a'', JStr ''b'', JStr ''c'', JStr ''d'', JStr ''e''] 2
          (\<lambda>g s. (Rejected (JStr ''boom''), Suc s)) \<lparr>cb_state = 0, trace = []\<rparr>)
        = Rejected (JStr ''boom'')"
    by (simp add: promiseChunk_def chunk_five_by_two Promise_resolve_def reducer_def
          promise_then_def invoke_def)
  ultimately show ?thesis by (simp only: simp_thms)
qed

text \<open>
  Claim C1, amended. With an empty list \<open>promiseChunk\<close> is fulfilled with the empty list
  and the world is untouched. For a chunk size of at least 1, the groups are consecutive
  pieces of the list (their concatenation is the list), each non-empty and of at most
  \<open>chunkSize\<close> elements, all but the last of exactly \<open>chunkSize\<close>. If the callback's
  promise is fulfilled on every group in turn, \<open>promiseChunk\<close> is fulfilled with the
  concatenation of the groups' results in group order, and the trace is, group by group
  in partition order, the invocation followed by the settlement: each promise settles
  before the next group's invocation. For a callback that maps its group element by
  element, the result is the map of the input list, in input order.
\<close>

theorem promiseChunk_sequential:
  assumes "1 \<le> chunkSize"
  shows "promiseChunk [] chunkSize cb w = (Fulfilled [], w)
    \<and> concat (chunk things chunkSize) = things
    \<and> (\<forall>g \<in> set (chunk things chunkSize). 0 < length g \<and> int (length g) \<le> chunkSize)
    \<and> (\<forall>g \<in> set (butlast (chunk things chunkSize)). int (length g) = chunkSize)
    \<and> (\<forall>vs s'. run_groups cb (chunk things chunkSize) (cb_state w) = Some (vs, s') \<longrightarrow>
          promiseChunk things chunkSize cb w =
            (Fulfilled (concat (map spread vs)),
             \<lparr>cb_state = s',
                trace = trace w @ concat (map2 group_events (chunk things chunkSize) vs)\<rparr>))
    \<and> ((\<forall>g s. cb g s = (Fulfilled (JArr (map f g)), s)) \<longrightarrow>
          fst (promiseChunk things chunkSize cb w) = Fulfilled (map f things))"
proof -
  have parts: "concat (chunk things chunkSize) = things"
    using assms by (rule concat_chunk)
  have sizes: "0 < length g \<and> int (length g) \<le> chunkSize" if "g \<in> set (chunk things chunkSize)" for g
    using chunk_loop_lengths [of g things "nat chunkSize" 0] that assms
    by (auto simp: chunk_positive)
  have full: "int (length g) = chunkSize" if "g \<in> set (butlast (chunk things chunkSize))" for g
    using chunk_loop_butlast [of g things "nat chunkSize" 0] that assms
    by (auto simp: chunk_positive)
  have order: "fst (promiseChunk things chunkSize cb w) = Fulfilled (map f things)"
    if "\<forall>g s. cb g s = (Fulfilled (JArr (map f g)), s)"
  proof -
    from that have "run_groups cb (chunk things chunkSize) (cb_state w)
                    = Some (map (\<lambda>g. JArr (map f g)) (chunk things chunkSize), cb_state w)"
      by (intro run_groups_map) simp
    from promiseChunk_fulfilled [OF this] show ?thesis
      by (simp only: fst_conv concat_spread_map parts)
  qed
  show ?thesis
  proof (intro conjI)
    show "promiseChunk [] chunkSize cb w = (Fulfilled [], w)" by (rule promiseChunk_empty)
    show "concat (chunk things chunkSize) = things" by (rule parts)
    show "\<forall>g \<in> set (chunk things chunkSize). 0 < length g \<and> int (length g) \<le> chunkSize"
      using sizes by (intro ballI)
    show "\<forall>g \<in> set (butlast (chunk things chunkSize)). int (length g) = chunkSize"
      using full by (intro ballI)
    show "\<forall>vs s'. run_groups cb (chunk things chunkSize) (cb_state w) = Some (vs, s') \<longrightarrow>
          promiseChunk things chunkSize cb w =
            (Fulfilled (concat (map spread vs)),
             \<lparr>cb_state = s',
                trace = trace w @ concat (map2 group_events (chunk things chunkSize) vs)\<rparr>)"
      by (intro allI impI) (rule promiseChunk_fulfilled)
    show "(\<forall>g s. cb g s = (Fulfilled (JArr (map f g)), s)) \<longrightarrow>
          fst (promiseChunk things chunkSize cb w) = Fulfilled (map f things)"
      by (intro impI) (rule order)
  qed
qed

theorem promiseChunk_sequential_witness:
  "chunk [JStr ''a'', JStr ''b'', JStr ''c'', JStr ''d'', JStr ''e''] 2
     = [[JStr ''a'', JStr ''b''], [JStr ''c'', JStr ''d''], [JStr ''e'']]
   \<and> promiseChunk [JStr ''a'', JStr ''b'', JStr ''c'', JStr ''d'', JStr ''e''] 2
        (\<lambda>g s. (Fulfilled (JArr g), Suc s)) \<lparr>cb_state = 0, trace = []\<rparr>
     = (Fulfilled [JStr ''a'', JStr ''b'', JStr ''c'', JStr ''d'', JStr ''e''],
        \<lparr>cb_state = 3,
           trace = [Invoked [JStr ''a'', JStr ''b''],
                    Settled [JStr ''a'', JStr ''b''] (Fulfilled (JArr [JStr ''a'', JStr ''b''])),
                    Invoked [JStr ''c'', JStr ''d''],
                    Settled [JStr ''c'', JStr ''d''] (Fulfilled (JArr [JStr ''c'', JStr ''d''])),
                    Invoked [JStr ''e''],
                    Settled [JStr ''e''] (Fulfilled (JArr [JStr ''e'']))]\<rparr>)
   \<and> fst (promiseChunk [JStr ''a'', JStr ''b'', JStr ''c'', JStr ''d'', JStr ''e''] 2
        (\<lambda>g s. (Fulfilled (JArr (map (\<lambda>v. JArr [v]) g)), s)) \<lparr>cb_state = (), trace = []\<rparr>)
     = Fulfilled [JArr [JStr ''a''], JArr [JStr ''b''], JArr [JStr ''c''], JArr [JStr ''d''],
                  JArr [JStr ''e'']]"
proof -
  let ?things = "[JStr ''a'', JStr ''b'', JStr ''c'', JStr ''d'', JStr ''e'']"
  let ?count = "\<lambda>(g::jsval list) (s::nat). (Fulfilled (JArr g), Suc s)"
  let ?wrap = "\<lambda>(g::jsval list) (s::unit). (Fulfilled (JArr (map (\<lambda>v. JArr [v]) g)), s)"
  have two: "(1::int) \<le> 2" by simp
  note seq = promiseChunk_sequential [OF two, where things = ?things]
  have counted: "run_groups ?count (chunk ?things 2) (cb_state \<lparr>cb_state = 0, trace = []\<rparr>)
                 = Some ([JArr [JStr ''a'', JStr ''b''], JArr [JStr ''c'', JStr ''d''],
                          JArr [JStr ''e'']], 3)"
    by (simp add: chunk_five_by_two)
  note first = seq [where cb = ?count and w = "\<lparr>cb_state = 0, trace = []\<rparr>",
      THEN conjunct2, THEN conjunct2, THEN conjunct2, THEN conjunct2, THEN conjunct1,
      rule_format, OF counted]
  have "\<forall>g s. ?wrap g s = (Fulfilled (JArr (map (\<lambda>v. JArr [v]) g)), s)" by simp
  note second = seq [where cb = ?wrap and f = "\<lambda>v. JArr [v]"
        and w = "\<lparr>cb_state = (), trace = []\<rparr>",
      THEN conjunct2, THEN conjunct2, THEN conjunct2, THEN conjunct2, THEN conjunct2,
      rule_format, OF this [rule_format]]
  from first second show ?thesis
    by (simp add: chunk_five_by_two spread_def group_events_def)
qed

text \<open>
  Claim C2. If the trace of a run of \<open>promiseChunk\<close> holds the rejection of the
  callback's promise on some group, then \<open>promiseChunk\<close> is rejected with the same
  reason (no list of results is delivered), that rejection is the last event of the
  trace, and the groups the callback was invoked on are the groups up to and including
  the failing one: no later group is invoked.
\<close>

theorem promiseChunk_rejection_propagates:
  assumes "promiseChunk things chunkSize cb \<lparr>cb_state = s, trace = []\<rparr> = (out, w')"
    and "Settled g (Rejected e) \<in> set (trace w')"
  shows "out = Rejected e
    \<and> (\<exists>evs. trace w' = evs @ [Invoked g, Settled g (Rejected e)])
    \<and> (\<exists>k<length (chunk things chunkSize).
          chunk things chunkSize ! k = g
          \<and> invoked_groups (trace w') = take (Suc k) (chunk things chunkSize))"
proof -
  let ?w = "\<lparr>cb_state = s, trace = []\<rparr>"
  let ?gs = "chunk things chunkSize"
  have start: "Promise_resolve [] ?w = (Fulfilled ([]::jsval list), ?w)"
    by (simp add: Promise_resolve_def)
  have run: "foldl (reducer cb) (Promise_resolve []) ?gs ?w = (out, w')"
    using assms(1) by (simp add: promiseChunk_chain)
  have "Settled g (Rejected e) \<notin> set (trace ?w)" by simp
  with chain_rejection_last [OF start run assms(2)]
  have rej: "out = Rejected e"
    and "\<exists>evs. trace w' = evs @ [Invoked g, Settled g (Rejected e)]"
    by blast+
  then obtain evs where evs: "trace w' = evs @ [Invoked g, Settled g (Rejected e)]" by blast
  have "invoked_groups (trace ?w) = []" by (simp add: invoked_groups_def)
  with chain_invoked_prefix [OF start run] obtain k where
    k: "k \<le> length ?gs" "invoked_groups (trace w') = take k ?gs"
    by auto
  have inv: "invoked_groups (trace w') = invoked_groups evs @ [g]"
    by (simp add: evs invoked_groups_def)
  with k(2) have tk: "take k ?gs = invoked_groups evs @ [g]" by simp
  then have ne: "take k ?gs \<noteq> []" and la: "last (take k ?gs) = g" by simp_all
  from ne obtain k' where k': "k = Suc k'" by (cases k) auto
  with k(1) have lt: "k' < length ?gs" by simp
  then have "take k ?gs = take k' ?gs @ [?gs ! k']"
    by (simp only: k' take_Suc_conv_app_nth)
  with la have nth: "?gs ! k' = g" by simp
  from k(2) k' have "invoked_groups (trace w') = take (Suc k') ?gs" by simp
  with lt nth have "\<exists>k<length ?gs. ?gs ! k = g \<and> invoked_groups (trace w') = take (Suc k) ?gs"
    by blast
  with rej evs show ?thesis by blast
qed

theorem promiseChunk_rejection_propagates_witness:
  "promiseChunk [JStr ''a'', JStr ''b'', JStr ''c'', JStr ''d'', JStr ''e''] 2
     (\<lambda>g s. (if s = 1 then Rejected (JStr ''boom'') else Fulfilled (JArr g), Suc s))
     \<lparr>cb_state = 0, trace = []\<rparr>
   = (Rejected (JStr ''boom''),
      \<lparr>cb_state = 2,
         trace = [Invoked [JStr ''a'', JStr ''b''],
                  Settled [JStr ''a'', JStr ''b''] (Fulfilled (JArr [JStr ''a'', JStr ''b''])),
                  Invoked [JStr ''c'', JStr ''d''],
                  Settled [JStr ''c'', JStr ''d''] (Rejected (JStr ''boom''))]\<rparr>)
   \<and> invoked_groups
        [Invoked [JStr ''a'', JStr ''b''],
         Settled [JStr ''a'', JStr ''b''] (Fulfilled (JArr [JStr ''a'', JStr ''b''])),
         Invoked [JStr ''c'', JStr ''d''],
         Settled [JStr ''c'', JStr ''d''] (Rejected (JStr ''boom''))]
      = [[JStr ''a'', JStr ''b''], [JStr ''c'', JStr ''d'']]"
proof -
  let ?cb = "\<lambda>g s. (if s = 1 then Rejected (JStr ''boom'') else Fulfilled (JArr g), Suc s)"
  let ?tr = "[Invoked [JStr ''a'', JStr ''b''],
              Settled [JStr ''a'', JStr ''b''] (Fulfilled (JArr [JStr ''a'', JStr ''b''])),
              Invoked [JStr ''c'', JStr ''d''],
              Settled [JStr ''c'', JStr ''d''] (Rejected (JStr ''boom''))]"
  have run: "promiseChunk [JStr ''a'', JStr ''b'', JStr ''c'', JStr ''d'', JStr ''e''] 2 ?cb
               \<lparr>cb_state = 0::nat, trace = []\<rparr>
             = (Rejected (JStr ''boom''), \<lparr>cb_state = 2, trace = ?tr\<rparr>)"
    by (simp add: promiseChunk_def chunk_five_by_two reducer_def
          promise_then_def invoke_def Promise_resolve_def settle_events_def array_concat_def)
  have mem: "Settled [JStr ''c'', JStr ''d''] (Rejected (JStr ''boom''))
             \<in> set (trace \<lparr>cb_state = 2::nat, trace = ?tr\<rparr>)"
    by simp
  from promiseChunk_rejection_propagates [OF run mem] run
  show ?thesis by (simp add: invoked_groups_def)
qed

text \<open>
  Claim C10. For a chunk size below 1 there are no groups: \<open>promiseChunk\<close> is fulfilled
  with the empty list, whatever the list, and the world is as before (the callback is
  never invoked).
\<close>

theorem promiseChunk_no_groups:
  assumes "chunkSize < 1"
  shows "chunk things chunkSize = []
         \<and> promiseChunk things chunkSize cb w = (Fulfilled [], w)"
  using assms by (simp add: chunk_nonpositive promiseChunk_small_size)

theorem promiseChunk_no_groups_witness:
  "promiseChunk [JStr ''a'', JStr ''b'', JStr ''c''] (- 2)
     (\<lambda>g s. (Rejected (JStr ''boom''), Suc s)) \<lparr>cb_state = 0, trace = []\<rparr>
   = (Fulfilled [], \<lparr>cb_state = 0, trace = []\<rparr>)"
  using promiseChunk_no_groups [of "- 2" "[JStr ''a'', JStr ''b'', JStr ''c'']"
      "\<lambda>g s. (Rejected (JStr ''boom''), Suc s)" "\<lparr>cb_state = 0, trace = []\<rparr>"]
  by simp

subsection \<open>The animation-frame throttle\<close>

lemma throttled_pending:
  "truthy_id (animationFrameId st) \<Longrightarrow> throttled args st = st\<lparr>lastCallback := Run args\<rparr>"
  by (simp add: throttled_def)

lemma throttled_calls_pending:
  "truthy_id (animationFrameId st) \<Longrightarrow>
   throttled_calls argss st
     = st\<lparr>lastCallback := (if argss = [] then lastCallback st else Run (last argss))\<rparr>"
proof (induction argss arbitrary: st)
  case Nil
  then show ?case by (simp add: throttled_calls_def)
next
  case (Cons a as)
  have "throttled_calls (a # as) st = throttled_calls as (st\<lparr>lastCallback := Run a\<rparr>)"
    using Cons.prems by (simp add: throttled_calls_def throttled_pending)
  also have "\<dots> = (st\<lparr>lastCallback := Run a\<rparr>)
                      \<lparr>lastCallback := (if as = [] then Run a else Run (last as))\<rparr>"
    using Cons.prems by (subst Cons.IH) simp_all
  finally show ?case by simp
qed

lemma throttled_first:
  "throttled a (animationThrottle h) =
     \<lparr>animationFrameId = Some (h + 1), lastCallback = Run a,
      frame_requests = [(h + 1, Run a)], frame_handle = h + 1, calls = []\<rparr>"
  by (simp add: throttled_def animationThrottle_def truthy_id_def requestAnimationFrame_def)

lemma throttled_calls_first:
  "throttled_calls (a # as) (animationThrottle h) =
     \<lparr>animationFrameId = Some (h + 1), lastCallback = Run (last (a # as)),
      frame_requests = [(h + 1, Run a)], frame_handle = h + 1, calls = []\<rparr>"
proof -
  have "throttled_calls (a # as) (animationThrottle h)
        = throttled_calls as (throttled a (animationThrottle h))"
    by (simp add: throttled_calls_def)
  also have "\<dots> = (throttled a (animationThrottle h))
      \<lparr>lastCallback := (if as = [] then lastCallback (throttled a (animationThrottle h))
                         else Run (last as))\<rparr>"
    by (rule throttled_calls_pending) (simp add: throttled_first truthy_id_def)
  finally show ?thesis by (simp add: throttled_first)
qed

text \<open>
  Claim C3 against the code. After one or more calls of the wrapper before the tick,
  exactly one frame callback is pending, and the tick runs the callback exactly once:
  but the pending frame callback is the closure of the first call, so the callback gets
  the arguments of the first call, not of the last. Only \<open>lastCallback\<close>, which
  \<open>flush\<close> runs, holds the arguments of the last call. Two calls, \<^verbatim>\<open>first\<close> then
  \<^verbatim>\<open>second\<close>, make the tick call the callback with \<^verbatim>\<open>first\<close>.
\<close>

theorem animationThrottle_tick_uses_first_arguments:
  "map snd (frame_requests (throttled_calls (a # as) (animationThrottle h))) = [Run a]
   \<and> lastCallback (throttled_calls (a # as) (animationThrottle h)) = Run (last (a # as))
   \<and> calls (animation_frame (throttled_calls (a # as) (animationThrottle h))) = [a]
   \<and> calls (flush (throttled_calls (a # as) (animationThrottle h))) = [last (a # as)]
   \<and> calls (animation_frame
        (throttled [JStr ''second''] (throttled [JStr ''first''] (animationThrottle 0))))
       = [[JStr ''first'']]"
  by (simp add: throttled_calls_first animation_frame_def run_frame_callback_def flush_def
        cancel_def truthy_id_def cancelAnimationFrame_def throttled_first throttled_pending)

subsection \<open>The alignment of native text\<close>

lemma insertText_align:
  "align (insertText fontList nd isRtl) =
     (if text_align (style nd) = ''start'' then (if isRtl then ''right'' else ''left'')
      else if text_align (style nd) = ''end'' then (if isRtl then ''left'' else ''right'')
      else text_align (style nd))"
  by (simp add: insertText_def Let_def)

text \<open>
  Claim C4 against the code. \<open>insertText\<close> maps \<^verbatim>\<open>start\<close> and \<^verbatim>\<open>end\<close> by its \<open>isRtl\<close>
  argument, but the walk never passes one: for every node drawn as native text,
  \<^verbatim>\<open>start\<close> becomes \<^verbatim>\<open>left\<close> and \<^verbatim>\<open>end\<close> becomes \<^verbatim>\<open>right\<close>, whatever the direction of
  the node. A paragraph with \<^verbatim>\<open>text-align: start\<close> in a right-to-left context is drawn
  with \<^verbatim>\<open>left\<close>, where the specification asks for \<^verbatim>\<open>right\<close>.
\<close>

theorem recurseNodes_ignores_direction:
  "(nd, NativeText t) \<in> set (recurseNodes fontList tree) \<Longrightarrow>
   align t = (if text_align (style nd) = ''start'' then ''left''
              else if text_align (style nd) = ''end'' then ''right''
              else text_align (style nd))"
proof (induction fontList tree rule: recurseNodes.induct)
  case (1 fontList nd' children)
  from "1.prems" consider
      (below) c where "children \<noteq> [] \<and> \<not> capture_as_image nd'" "c \<in> set children"
        "(nd, NativeText t) \<in> set (recurseNodes fontList c)"
    | (here) "nd = nd'" "t = insertText fontList nd' False"
    by (auto simp: Let_def split: if_splits)
  then show ?case
  proof cases
    case below
    then show ?thesis by (intro "1.IH") 
  next
    case here
    then show ?thesis by (simp add: insertText_align)
  qed
qed

theorem recurseNodes_ignores_direction_witness:
  "recurseNodes [(''helvetica'', [''normal''])]
     (Element \<lparr>capture_as_image = False, innerText = [115, 97, 108, 97, 109], tagName = ''DIV'',
        style = \<lparr>font_family = ''serif'', font_style = ''normal'', text_align = ''start'',
                 weight = Weight 400, direction = ''rtl''\<rparr>\<rparr>
       [Element \<lparr>capture_as_image = False, innerText = [115, 97, 108, 97, 109], tagName = ''P'',
          style = \<lparr>font_family = ''helvetica'', font_style = ''normal'', text_align = ''start'',
                   weight = Weight 400, direction = ''rtl''\<rparr>\<rparr> []])
   = [(\<lparr>capture_as_image = False, innerText = [115, 97, 108, 97, 109], tagName = ''P'',
          style = \<lparr>font_family = ''helvetica'', font_style = ''normal'', text_align = ''start'',
                   weight = Weight 400, direction = ''rtl''\<rparr>\<rparr>,
       NativeText \<lparr>font = Some ''helvetica'', fontStyle = ''normal'', align = ''left''\<rparr>)]
   \<and> align \<lparr>font = Some ''helvetica'', fontStyle = ''normal'', align = ''left''\<rparr> = ''left''
   \<and> honoured_align \<lparr>font_family = ''helvetica'', font_style = ''normal'',
        text_align = ''start'', weight = Weight 400, direction = ''rtl''\<rparr> = ''right''"
proof -
  let ?st = "\<lparr>font_family = ''helvetica'', font_style = ''normal'', text_align = ''start'',
                   weight = Weight 400, direction = ''rtl''\<rparr>"
  let ?p = "\<lparr>capture_as_image = False, innerText = [115, 97, 108, 97, 109], tagName = ''P'',
          style = ?st\<rparr>"
  let ?root = "Element \<lparr>capture_as_image = False, innerText = [115, 97, 108, 97, 109],
        tagName = ''DIV'',
        style = \<lparr>font_family = ''serif'', font_style = ''normal'', text_align = ''start'',
                 weight = Weight 400, direction = ''rtl''\<rparr>\<rparr> [Element ?p []]"
  let ?t = "\<lparr>font = Some ''helvetica'', fontStyle = ''normal'', align = ''left''\<rparr>"
  have drawn: "recurseNodes [(''helvetica'', [''normal''])] ?root = [(?p, NativeText ?t)]"
    by (simp add: insertText_def resolved_weight_def)
  then have "(?p, NativeText ?t) \<in> set (recurseNodes [(''helvetica'', [''normal''])] ?root)"
    by simp
  from recurseNodes_ignores_direction [OF this] drawn show ?thesis
    by (simp add: honoured_align_def)
qed

subsection \<open>Sharing between the result of a helper and its input\<close>

lemma fresh_extension_refl: "fresh_extension h h"
  by (auto simp: fresh_extension_def)

lemma fresh_extension_trans:
  assumes "fresh_extension h h1" "fresh_extension h1 h2"
  shows "fresh_extension h h2"
proof -
  from assms have len: "length h \<le> length h1" "length h1 \<le> length h2"
    and t1: "take (length h) h1 = h" and t2: "take (length h1) h2 = h1"
    by (simp_all add: fresh_extension_def)
  have "take (length h) h2 = take (length h) (take (length h1) h2)"
    using len by (simp add: min_def)
  with t1 t2 have pre: "take (length h) h2 = h" by simp
  have "refs_obj (h2 ! a) \<subseteq> {length h..<length h2}" if a: "length h \<le> a" "a < length h2" for a
  proof (cases "a < length h1")
    case True
    then have "h2 ! a = h1 ! a" using t2 by (metis nth_take)
    moreover from assms(1) a True have "refs_obj (h1 ! a) \<subseteq> {length h..<length h1}"
      by (simp add: fresh_extension_def)
    ultimately show ?thesis using len by auto
  next
    case False
    with assms(2) a have "refs_obj (h2 ! a) \<subseteq> {length h1..<length h2}"
      by (simp add: fresh_extension_def)
    then show ?thesis using len by auto
  qed
  with len pre show ?thesis by (simp add: fresh_extension_def)
qed

lemma fresh_extension_snoc:
  assumes "fresh_extension h h1" and "refs_obj ob \<subseteq> {length h..<Suc (length h1)}"
  shows "fresh_extension h (h1 @ [ob])"
proof -
  from assms(1) have len: "length h \<le> length h1" and pre: "take (length h) h1 = h"
    and old: "\<And>a. length h \<le> a \<Longrightarrow> a < length h1 \<Longrightarrow> refs_obj (h1 ! a) \<subseteq> {length h..<length h1}"
    by (simp_all add: fresh_extension_def)
  have "refs_obj ((h1 @ [ob]) ! a) \<subseteq> {length h..<length (h1 @ [ob])}"
    if "length h \<le> a" "a < length (h1 @ [ob])" for a
  proof (cases "a < length h1")
    case True
    with old [OF that(1)] show ?thesis by (auto simp: nth_append)
  next
    case False
    with that(2) have "a = length h1" by simp
    with assms(2) show ?thesis by simp
  qed
  with len pre show ?thesis by (simp add: fresh_extension_def)
qed

lemma materialize_fresh:
  "materialize j h = (v, h') \<Longrightarrow>
     fresh_extension h h' \<and> refs_val v \<subseteq> {length h..<length h'}"
  "materialize_list js h = (vs, h') \<Longrightarrow>
     fresh_extension h h' \<and> \<Union> (refs_val ` set vs) \<subseteq> {length h..<length h'}"
  "materialize_fields fs h = (kvs, h') \<Longrightarrow>
     fresh_extension h h' \<and> \<Union> (refs_val ` snd ` set kvs) \<subseteq> {length h..<length h'}"
proof (induction j h and js h and fs h arbitrary: v h' and vs h' and kvs h'
       rule: materialize_materialize_list_materialize_fields.induct)
  case (5 js h)
  obtain xs h1 where m: "materialize_list js h = (xs, h1)" by (cases "materialize_list js h")
  from 5(1) [OF m] have f: "fresh_extension h h1"
    and r: "\<Union> (refs_val ` set xs) \<subseteq> {length h..<length h1}" by simp_all
  from 5(2) m have v: "v = VRef (length h1)" and h': "h' = h1 @ [OArr xs]" by simp_all
  from f have len: "length h \<le> length h1" by (simp add: fresh_extension_def)
  from r have "refs_obj (OArr xs) \<subseteq> {length h..<Suc (length h1)}" by auto
  with f have "fresh_extension h (h1 @ [OArr xs])" by (rule fresh_extension_snoc)
  with v h' len show ?case by simp
next
  case (6 fs h)
  obtain xs h1 where m: "materialize_fields fs h = (xs, h1)" by (cases "materialize_fields fs h")
  from 6(1) [OF m] have f: "fresh_extension h h1"
    and r: "\<Union> (refs_val ` snd ` set xs) \<subseteq> {length h..<length h1}" by simp_all
  from 6(2) m have v: "v = VRef (length h1)" and h': "h' = h1 @ [OObj xs]" by simp_all
  from f have len: "length h \<le> length h1" by (simp add: fresh_extension_def)
  from r have "refs_obj (OObj xs) \<subseteq> {length h..<Suc (length h1)}" by auto
  with f have "fresh_extension h (h1 @ [OObj xs])" by (rule fresh_extension_snoc)
  with v h' len show ?case by simp
next
  case (8 j js h)
  obtain x h1 where m1: "materialize j h = (x, h1)" by (cases "materialize j h")
  obtain xs h2 where m2: "materialize_list js h1 = (xs, h2)" by (cases "materialize_list js h1")
  from 8(1) [OF m1] have f1: "fresh_extension h h1"
    and r1: "refs_val x \<subseteq> {length h..<length h1}" by simp_all
  from 8(2) [OF m1 [symmetric] m2] have f2: "fresh_extension h1 h2"
    and r2: "\<Union> (refs_val ` set xs) \<subseteq> {length h1..<length h2}" by simp_all
  from 8(3) m1 m2 have vs: "vs = x # xs" and h': "h' = h2" by simp_all
  from f1 f2 have len: "length h \<le> length h1" "length h1 \<le> length h2"
    by (simp_all add: fresh_extension_def)
  from f1 f2 have "fresh_extension h h2" by (rule fresh_extension_trans)
  moreover from r1 r2 len have "\<Union> (refs_val ` set (x # xs)) \<subseteq> {length h..<length h2}"
    by auto
  ultimately show ?case by (simp only: vs h')
next
  case (10 kj fs h)
  obtain x h1 where m1: "materialize (snd kj) h = (x, h1)" by (cases "materialize (snd kj) h")
  obtain xs h2 where m2: "materialize_fields fs h1 = (xs, h2)"
    by (cases "materialize_fields fs h1")
  from 10(1) [OF m1] have f1: "fresh_extension h h1"
    and r1: "refs_val x \<subseteq> {length h..<length h1}" by simp_all
  from 10(2) [OF m1 [symmetric] m2] have f2: "fresh_extension h1 h2"
    and r2: "\<Union> (refs_val ` snd ` set xs) \<subseteq> {length h1..<length h2}" by simp_all
  from 10(3) m1 m2 have kvs: "kvs = (fst kj, x) # xs" and h': "h' = h2" by simp_all
  from f1 f2 have len: "length h \<le> length h1" "length h1 \<le> length h2"
    by (simp_all add: fresh_extension_def)
  from f1 f2 have "fresh_extension h h2" by (rule fresh_extension_trans)
  moreover from r1 r2 len
  have "\<Union> (refs_val ` snd ` set ((fst kj, x) # xs)) \<subseteq> {length h..<length h2}"
    by auto
  ultimately show ?case by (simp only: kvs h')
qed (auto simp: fresh_extension_refl)


lemma fresh_extension_closed:
  "fresh_extension h h1 \<Longrightarrow> length h \<le> a \<Longrightarrow> a < length h1 \<Longrightarrow>
   refs_obj (h1 ! a) \<subseteq> {length h..<length h1}"
  by (simp add: fresh_extension_def)

lemma JSON_clone_fresh:
  assumes "JSON_clone h v = Inr (newArr, h1)"
  shows "fresh_extension h h1" and "refs_val newArr \<subseteq> {length h..<length h1}"
proof -
  from assms obtain j where "materialize j h = (newArr, h1)"
    by (auto simp: JSON_clone_def split: sum.splits option.splits)
  from materialize_fresh(1) [OF this]
  show "fresh_extension h h1" and "refs_val newArr \<subseteq> {length h..<length h1}" by simp_all
qed

lemma array_at_Some:
  "array_at h1 (VRef r) = Some xs \<Longrightarrow> r < length h1 \<and> h1 ! r = OArr xs"
  by (auto simp: array_at_def split: if_splits obj.splits)

text \<open>The store after the fresh array at \<open>r\<close> got its final elements \<open>ys\<close>.\<close>

lemma updated_copy:
  assumes ext: "fresh_extension h h1"
    and r: "length h \<le> r" "r < length h1"
    and ys: "\<Union> (refs_val ` set ys) \<subseteq> {length h..<length h1} \<union> refs_val item"
  shows "take (length h) (h1[r := OArr ys]) = h"
    and "a \<in> reach (h1[r := OArr ys]) (VRef r) \<Longrightarrow>
         a \<in> {length h..<length h1} \<or> a \<in> reach (h1[r := OArr ys]) item"
proof -
  let ?h' = "h1[r := OArr ys]"
  from ext have pre: "take (length h) h1 = h"
    and closed: "\<And>a. length h \<le> a \<Longrightarrow> a < length h1 \<Longrightarrow>
                   refs_obj (h1 ! a) \<subseteq> {length h..<length h1}"
    by (simp_all add: fresh_extension_def)
  from r(1) pre show "take (length h) ?h' = h" by simp
  assume "a \<in> reach ?h' (VRef r)"
  then show "a \<in> {length h..<length h1} \<or> a \<in> reach ?h' item"
  proof (induction rule: reach.induct)
    case (root a)
    with r show ?case by simp
  next
    case (step a b)
    from step.IH show ?case
    proof
      assume "a \<in> reach ?h' item"
      from this step.hyps(2,3) have "b \<in> reach ?h' item" by (rule reach.step)
      then show ?thesis ..
    next
      assume new: "a \<in> {length h..<length h1}"
      show ?thesis
      proof (cases "a = r")
        case True
        with step.hyps(3) r(2) have "b \<in> \<Union> (refs_val ` set ys)" by simp
        with ys have "b \<in> {length h..<length h1} \<or> b \<in> refs_val item" by auto
        then show ?thesis by (auto intro: reach.root)
      next
        case False
        with step.hyps(3) have "b \<in> refs_obj (h1 ! a)" by simp
        with closed [of a] new show ?thesis by auto
      qed
    qed
  qed
qed

lemma set_splice_insert: "set (splice_insert xs k item) = insert item (set xs)"
proof -
  have "set (take n xs) \<union> set (drop n xs) = set xs" for n
    by (metis append_take_drop_id set_append)
  then show ?thesis by (auto simp: splice_insert_def Let_def)
qed

lemma js_get_in: "js_get u xs i \<in> insert u (set xs)"
  by (auto simp: js_get_def is_array_index_def)

lemma set_js_set: "set (js_set u xs i v) \<subseteq> insert u (insert v (set xs))"
  by (auto simp: js_set_def dest: set_update_subset_insert [THEN subsetD])

lemma set_swapped:
  "set (js_set u (js_set u xs i (js_get u xs j)) j (js_get u xs i)) \<subseteq> insert u (set xs)"
  using set_js_set [of u "js_set u xs i (js_get u xs j)" j "js_get u xs i"]
    set_js_set [of u xs i "js_get u xs j"] js_get_in [of u xs i] js_get_in [of u xs j]
  by auto


lemma insert_store_shares_item:
  assumes clone: "JSON_clone h arr = Inr (VRef r, h1)"
    and xs: "array_at h1 (VRef r) = Some xs"
    and h': "h' = h1[r := OArr (splice_insert xs k item)]"
  shows "take (length h) h' = h \<and> length h \<le> r \<and> r < length h'
         \<and> (\<forall>a \<in> reach h' (VRef r). a < length h \<longrightarrow> a \<in> reach h' item)"
proof -
  note ext = JSON_clone_fresh(1) [OF clone]
  from JSON_clone_fresh(2) [OF clone] have r: "length h \<le> r" "r < length h1" by simp_all
  from array_at_Some [OF xs] have "h1 ! r = OArr xs" by simp
  with fresh_extension_closed [OF ext r]
  have "\<Union> (refs_val ` set xs) \<subseteq> {length h..<length h1}" by simp
  then have ys: "\<Union> (refs_val ` set (splice_insert xs k item))
                 \<subseteq> {length h..<length h1} \<union> refs_val item"
    by (auto simp: set_splice_insert)
  note upd = updated_copy [OF ext r ys]
  have "a \<in> reach h' item" if "a \<in> reach h' (VRef r)" "a < length h" for a
    using upd(2) [of a] that by (auto simp: h')
  with upd(1) r show ?thesis by (auto simp: h')
qed

lemma insertBefore_store_cases:
  assumes "insertBefore_store h arr idx item = Inr (r, h')"
  obtains h1 xs where "JSON_clone h arr = Inr (VRef r, h1)" "array_at h1 (VRef r) = Some xs"
    "h' = h1[r := OArr (splice_insert xs (max 0 idx) item)]"
  using assms
  by (auto simp: insertBefore_store_def Let_def split: sum.splits prod.splits val.splits option.splits)

lemma swapElements_store_cases:
  assumes "swapElements_store h arr idx1 idx2 = Inr (r, h')"
  obtains h1 xs where "JSON_clone h arr = Inr (VRef r, h1)" "array_at h1 (VRef r) = Some xs"
    "h' = h1[r := OArr (js_set VUndefined (js_set VUndefined xs idx1 (js_get VUndefined xs idx2))
                          idx2 (js_get VUndefined xs idx1))]"
  using assms
  by (auto simp: swapElements_store_def Let_def split: sum.splits prod.splits val.splits option.splits)

lemma refs_val_iff: "b \<in> refs_val v \<longleftrightarrow> v = VRef b"
  by (cases v) auto

lemma reach_child:
  assumes "a < length h" "b \<in> refs_obj (h ! a)" "c \<in> reach h (VRef b)"
  shows "c \<in> reach h (VRef a)"
  using assms(3)
proof (induction rule: reach.induct)
  case (root c)
  then have "c = b" by simp
  moreover have "a \<in> reach h (VRef a)" by (rule reach.root) simp
  ultimately show ?case using assms(1,2) by (auto intro: reach.step)
next
  case (step c d)
  then show ?case by (auto intro: reach.step)
qed


lemma reach_from_ref: "c \<in> reach h v \<Longrightarrow> \<exists>b. v = VRef b"
  by (induction rule: reach.induct) (auto simp: refs_val_iff)

lemma reach_element:
  assumes "a < length h" "v \<in> set vs" "h ! a = OArr vs" "c \<in> reach h v"
  shows "c \<in> reach h (VRef a)"
proof -
  from reach_from_ref [OF assms(4)] obtain b where b: "v = VRef b" by blast
  with assms(2,3) have "b \<in> refs_obj (h ! a)" by force
  with assms(1,4) b show ?thesis by (auto intro: reach_child)
qed

lemma reach_field:
  assumes "a < length h" "kv \<in> set fs" "h ! a = OObj fs" "c \<in> reach h (snd kv)"
  shows "c \<in> reach h (VRef a)"
proof -
  from reach_from_ref [OF assms(4)] obtain b where b: "snd kv = VRef b" by blast
  with assms(2,3) have "b \<in> refs_obj (h ! a)" by force
  with assms(1,4) b show ?thesis by (auto intro: reach_child)
qed

lemma fresh_extension_nth:
  "fresh_extension h h1 \<Longrightarrow> a < length h \<Longrightarrow> h1 ! a = h ! a"
  by (metis fresh_extension_def nth_take)

lemma fresh_extension_length: "fresh_extension h h1 \<Longrightarrow> length h \<le> length h1"
  by (simp add: fresh_extension_def)

text \<open>An object that \<open>materialize\<close> allocates refers to objects allocated before it.\<close>

lemma materialize_downward:
  "materialize j h = (v, h') \<Longrightarrow> length h \<le> a \<Longrightarrow> a < length h' \<Longrightarrow>
     refs_obj (h' ! a) \<subseteq> {length h..<a}"
  "materialize_list js h = (vs, h') \<Longrightarrow> length h \<le> a \<Longrightarrow> a < length h' \<Longrightarrow>
     refs_obj (h' ! a) \<subseteq> {length h..<a}"
  "materialize_fields fs h = (kvs, h') \<Longrightarrow> length h \<le> a \<Longrightarrow> a < length h' \<Longrightarrow>
     refs_obj (h' ! a) \<subseteq> {length h..<a}"
proof (induction j h and js h and fs h arbitrary: v h' a and vs h' a and kvs h' a
       rule: materialize_materialize_list_materialize_fields.induct)
  case (5 js h)
  obtain xs h1 where m: "materialize_list js h = (xs, h1)" by (cases "materialize_list js h")
  from 5(2) m have h': "h' = h1 @ [OArr xs]" by simp
  show ?case
  proof (cases "a < length h1")
    case True
    with 5(1) [OF m 5(3)] show ?thesis by (simp add: h' nth_append)
  next
    case False
    with 5(4) have "a = length h1" by (simp add: h')
    with materialize_fresh(2) [OF m] show ?thesis by (simp add: h')
  qed
next
  case (6 fs h)
  obtain xs h1 where m: "materialize_fields fs h = (xs, h1)" by (cases "materialize_fields fs h")
  from 6(2) m have h': "h' = h1 @ [OObj xs]" by simp
  show ?case
  proof (cases "a < length h1")
    case True
    with 6(1) [OF m 6(3)] show ?thesis by (simp add: h' nth_append)
  next
    case False
    with 6(4) have "a = length h1" by (simp add: h')
    with materialize_fresh(3) [OF m] show ?thesis by (simp add: h')
  qed
next
  case (8 j js h)
  obtain x h1 where m1: "materialize j h = (x, h1)" by (cases "materialize j h")
  obtain xs h2 where m2: "materialize_list js h1 = (xs, h2)" by (cases "materialize_list js h1")
  from 8(3) m1 m2 have h': "h' = h2" by simp
  from materialize_fresh(1) [OF m1] have len: "length h \<le> length h1"
    by (simp add: fresh_extension_length)
  from materialize_fresh(2) [OF m2] have ext: "fresh_extension h1 h2" by simp
  show ?case
  proof (cases "a < length h1")
    case True
    from fresh_extension_nth [OF ext True] 8(1) [OF m1 8(4) True] show ?thesis by (simp add: h')
  next
    case False
    then have "length h1 \<le> a" by simp
    from 8(2) [OF m1 [symmetric] m2 this] 8(5) have "refs_obj (h2 ! a) \<subseteq> {length h1..<a}"
      by (simp add: h')
    with len show ?thesis by (auto simp: h')
  qed
next
  case (10 kj fs h)
  obtain x h1 where m1: "materialize (snd kj) h = (x, h1)" by (cases "materialize (snd kj) h")
  obtain xs h2 where m2: "materialize_fields fs h1 = (xs, h2)"
    by (cases "materialize_fields fs h1")
  from 10(3) m1 m2 have h': "h' = h2" by simp
  from materialize_fresh(1) [OF m1] have len: "length h \<le> length h1"
    by (simp add: fresh_extension_length)
  from materialize_fresh(3) [OF m2] have ext: "fresh_extension h1 h2" by simp
  show ?case
  proof (cases "a < length h1")
    case True
    from fresh_extension_nth [OF ext True] 10(1) [OF m1 10(4) True] show ?thesis
      by (simp add: h')
  next
    case False
    then have "length h1 \<le> a" by simp
    from 10(2) [OF m1 [symmetric] m2 this] 10(5) have "refs_obj (h2 ! a) \<subseteq> {length h1..<a}"
      by (simp add: h')
    with len show ?thesis by (auto simp: h')
  qed
qed auto

lemma materialize_list_length:
  "materialize_list js h = (vs, h') \<Longrightarrow> length vs = length js"
proof (induction js arbitrary: h vs h')
  case Nil
  then show ?case by simp
next
  case (Cons j js)
  obtain x h1 where m1: "materialize j h = (x, h1)" by (cases "materialize j h")
  obtain xs h2 where m2: "materialize_list js h1 = (xs, h2)" by (cases "materialize_list js h1")
  from Cons.prems m1 m2 have "vs = x # xs" by simp
  with Cons.IH [OF m2] show ?case by simp
qed

lemma collect_length: "collect rs = Inr xs \<Longrightarrow> length xs = length rs"
proof (induction rs arbitrary: xs)
  case Nil
  then show ?case by simp
next
  case (Cons r rs)
  then show ?case by (cases r; cases "collect rs") auto
qed

text \<open>The copy of an array is an array with as many elements.\<close>

lemma JSON_clone_length:
  assumes clone: "JSON_clone h arr = Inr (VRef r, h1)"
    and xs: "array_at h1 (VRef r) = Some xs"
  shows "\<exists>vs. array_at h arr = Some vs \<and> length xs = length vs"
proof -
  from clone obtain j where ser: "serialize h [] arr = Inr (Some j)"
    and mat: "materialize j h = (VRef r, h1)"
    by (auto simp: JSON_clone_def split: sum.splits option.splits)
  from array_at_Some [OF xs] have r: "r < length h1" "h1 ! r = OArr xs" by simp_all
  from mat r obtain js where j: "j = TArray js" and len: "length xs = length js"
  proof (cases j)
    case (TArray js)
    obtain ys h2 where m: "materialize_list js h = (ys, h2)" by (cases "materialize_list js h")
    with mat TArray have "r = length h2" "h1 = h2 @ [OArr ys]" by simp_all
    with r have "xs = ys" by simp
    with materialize_list_length [OF m] TArray that show ?thesis by simp
  next
    case (TObject fs)
    obtain ys h2 where m: "materialize_fields fs h = (ys, h2)"
      by (cases "materialize_fields fs h")
    with mat TObject have "r = length h2" "h1 = h2 @ [OObj ys]" by simp_all
    with r show ?thesis by simp
  qed simp_all
  from ser j show ?thesis
  proof (cases arr)
    case (VRef a)
    with ser j have a: "a < length h" by (auto split: if_splits)
    with ser j VRef obtain vs rs where vs: "h ! a = OArr vs"
      and rs: "collect (map (serialize h [a]) vs) = Inr rs" and js: "js = map array_slot rs"
      by (auto split: if_splits obj.splits sum.splits)
    from collect_length [OF rs] js len have "length xs = length vs" by simp
    with a vs VRef show ?thesis by (simp add: array_at_def)
  next
    case (VNum n)
    with ser j show ?thesis by (cases n) simp_all
  qed simp_all
qed

text \<open>
  From a value that refers below \<open>r\<close> in the fresh part, only fresh objects below \<open>r\<close> are
  reached, whatever is stored at \<open>r\<close>.
\<close>

lemma reach_below:
  assumes down: "\<And>a. n \<le> a \<Longrightarrow> a < length h1 \<Longrightarrow> refs_obj (h1 ! a) \<subseteq> {n..<a}"
    and r: "r < length h1" and y: "refs_val y \<subseteq> {n..<r}"
  shows "reach (h1[r := ob]) y \<subseteq> {n..<r}"
proof
  fix a
  assume "a \<in> reach (h1[r := ob]) y"
  then show "a \<in> {n..<r}"
  proof (induction rule: reach.induct)
    case (root a)
    with y show ?case by auto
  next
    case (step a b)
    from step.IH have a: "n \<le> a" "a < r" by simp_all
    with step.hyps(3) have "b \<in> refs_obj (h1 ! a)" by simp
    with down [of a] a r have "b \<in> {n..<a}" by auto
    with a show ?case by simp
  qed
qed

lemma JSON_clone_downward:
  assumes "JSON_clone h arr = Inr (v, h1)" and "length h \<le> a" and "a < length h1"
  shows "refs_obj (h1 ! a) \<subseteq> {length h..<a}"
proof -
  from assms(1) obtain j where "materialize j h = (v, h1)"
    by (auto simp: JSON_clone_def split: sum.splits option.splits)
  from materialize_downward(1) [OF this assms(2,3)] show ?thesis .
qed

lemma splice_insert_inserted_at:
  "splice_insert xs k item
     = inserted_at xs (nat (if k < 0 then max 0 (int (length xs) + k) else min (int (length xs)) k))
         item"
  by (simp add: splice_insert_def inserted_at_def Let_def min_def max_def)

lemma reach_stored:
  assumes "r < length h'" and "h' ! r = OArr ys" and "item \<in> set ys"
  shows "reach h' item \<subseteq> reach h' (VRef r)"
  using assms by (auto intro: reach_element)

text \<open>What the two insert helpers have in common, for the position \<open>k\<close> given to \<^verbatim>\<open>splice\<close>.\<close>

lemma insert_store_result:
  assumes clone: "JSON_clone h arr = Inr (VRef r, h1)"
    and xs: "array_at h1 (VRef r) = Some xs"
    and h': "h' = h1[r := OArr (splice_insert xs k item)]"
  shows "take (length h) h' = h \<and> length h \<le> r \<and> r < length h'
         \<and> (\<exists>vs xs. array_at h arr = Some vs \<and> length xs = length vs
              \<and> array_at h' (VRef r)
                  = Some (inserted_at xs
                      (nat (if k < 0 then max 0 (int (length vs) + k) else min (int (length vs)) k))
                      item)
              \<and> (\<forall>y \<in> set xs. reach h' y \<subseteq> {length h..<length h'}))
         \<and> (\<forall>a < length h. a \<in> reach h' (VRef r) \<longleftrightarrow> a \<in> reach h' item)"
proof -
  let ?ys = "splice_insert xs k item"
  from insert_store_shares_item [OF clone xs h']
  have frame: "take (length h) h' = h" "length h \<le> r" "r < length h'"
    and old: "\<And>a. a \<in> reach h' (VRef r) \<Longrightarrow> a < length h \<Longrightarrow> a \<in> reach h' item"
    by auto
  from frame(3) have r: "r < length h1" by (simp add: h')
  from array_at_Some [OF xs] have at: "h1 ! r = OArr xs" by simp
  from JSON_clone_length [OF clone xs] obtain vs
    where vs: "array_at h arr = Some vs" and len: "length xs = length vs" by blast
  from r have stored: "h' ! r = OArr ?ys" by (simp add: h')
  with frame(3) have result: "array_at h' (VRef r) = Some ?ys" by (simp add: array_at_def)
  have fresh: "reach h' y \<subseteq> {length h..<length h'}" if "y \<in> set xs" for y
  proof -
    from JSON_clone_downward [OF clone frame(2) r] at that
    have "refs_val y \<subseteq> {length h..<r}" by auto
    with JSON_clone_downward [OF clone] r have "reach (h1[r := OArr ?ys]) y \<subseteq> {length h..<r}"
      by (intro reach_below) auto
    with frame(3) show ?thesis by (auto simp: h')
  qed
  have "item \<in> set ?ys" by (simp add: set_splice_insert)
  with frame(3) stored have "reach h' item \<subseteq> reach h' (VRef r)" by (rule reach_stored)
  with old have shares: "\<forall>a < length h. a \<in> reach h' (VRef r) \<longleftrightarrow> a \<in> reach h' item"
    by auto
  from vs len result fresh
  have "\<exists>vs xs. array_at h arr = Some vs \<and> length xs = length vs
          \<and> array_at h' (VRef r)
              = Some (inserted_at xs
                  (nat (if k < 0 then max 0 (int (length vs) + k) else min (int (length vs)) k))
                  item)
          \<and> (\<forall>y \<in> set xs. reach h' y \<subseteq> {length h..<length h'})"
    by (intro exI [of _ vs] exI [of _ xs]) (simp add: splice_insert_inserted_at)
  with frame shares show ?thesis by (intro conjI)
qed

lemma swap_store_result:
  assumes clone: "JSON_clone h arr = Inr (VRef r, h1)"
    and xs: "array_at h1 (VRef r) = Some xs"
    and ys: "set ys \<subseteq> insert VUndefined (set xs)"
    and h': "h' = h1[r := OArr ys]"
  shows "take (length h) h' = h \<and> length h \<le> r \<and> r < length h'
         \<and> (\<exists>vs. array_at h arr = Some vs \<and> length xs = length vs)
         \<and> array_at h' (VRef r) = Some ys
         \<and> reach h' (VRef r) \<subseteq> {length h..<length h'}"
proof -
  note ext = JSON_clone_fresh(1) [OF clone]
  from JSON_clone_fresh(2) [OF clone] have r: "length h \<le> r" "r < length h1" by simp_all
  from array_at_Some [OF xs] have "h1 ! r = OArr xs" by simp
  with fresh_extension_closed [OF ext r]
  have old: "\<Union> (refs_val ` set xs) \<subseteq> {length h..<length h1}" by simp
  have "\<Union> (refs_val ` set ys) \<subseteq> \<Union> (refs_val ` insert VUndefined (set xs))"
    using ys by (intro Union_mono image_mono)
  also have "\<dots> = \<Union> (refs_val ` set xs)" by simp
  finally have refs: "\<Union> (refs_val ` set ys) \<subseteq> {length h..<length h1} \<union> refs_val VUndefined"
    using old by simp
  note upd = updated_copy [OF ext r refs]
  have none: "a \<notin> reach h' VUndefined" for a
    by (auto dest: reach_from_ref)
  have "a \<in> {length h..<length h'}" if "a \<in> reach h' (VRef r)" for a
    using upd(2) [of a] that none [of a] by (auto simp: h')
  then have "reach h' (VRef r) \<subseteq> {length h..<length h'}" by blast
  moreover from r have "array_at h' (VRef r) = Some ys" by (simp add: array_at_def h')
  moreover note JSON_clone_length [OF clone xs]
  ultimately show ?thesis using upd(1) r by (simp add: h')
qed

lemma insertAfter_store_position:
  assumes "insertAfter_store h arr idx item = Inr (r, h')"
  obtains h1 xs vs where "JSON_clone h arr = Inr (VRef r, h1)" "array_at h1 (VRef r) = Some xs"
    "array_at h arr = Some vs"
    "h' = h1[r := OArr (splice_insert xs (min (int (length vs)) (idx + 1)) item)]"
  using assms
  by (auto simp: insertAfter_store_def Let_def split: sum.splits prod.splits val.splits option.splits)

text \<open>
  Claim C8, amended. Whenever a helper returns, the store before the call is a prefix of
  the store after it, so every object that existed, the input array among them, is
  unchanged, and the array returned is fresh. The array \<open>insertBefore\<close> or \<open>insertAfter\<close>
  returns holds the item itself, as given, at the position of the insertion, among as many
  other elements as the input has, and from those only fresh objects are reached; hence
  an object that existed before the call is reachable from the result exactly if it is
  reachable from the item. The array \<open>swapElements\<close> returns is the swap of as many
  elements as the input has, and every object reachable from it is fresh.
\<close>

theorem array_helpers_copy_then_store_item:
  "(insertBefore_store h arr idx item = Inr (r, h') \<longrightarrow>
      take (length h) h' = h \<and> length h \<le> r \<and> r < length h'
      \<and> (\<exists>vs xs. array_at h arr = Some vs \<and> length xs = length vs
            \<and> array_at h' (VRef r)
                = Some (inserted_at xs (nat (min (max 0 idx) (int (length vs)))) item)
            \<and> (\<forall>y \<in> set xs. reach h' y \<subseteq> {length h..<length h'}))
      \<and> (\<forall>a < length h. a \<in> reach h' (VRef r) \<longleftrightarrow> a \<in> reach h' item))
   \<and> (insertAfter_store h arr idx item = Inr (r, h') \<longrightarrow>
      take (length h) h' = h \<and> length h \<le> r \<and> r < length h'
      \<and> (\<exists>vs xs. array_at h arr = Some vs \<and> length xs = length vs
            \<and> array_at h' (VRef r)
                = Some (inserted_at xs
                    (nat (if idx + 1 < 0 then max 0 (int (length vs) + (idx + 1))
                          else min (int (length vs)) (idx + 1))) item)
            \<and> (\<forall>y \<in> set xs. reach h' y \<subseteq> {length h..<length h'}))
      \<and> (\<forall>a < length h. a \<in> reach h' (VRef r) \<longleftrightarrow> a \<in> reach h' item))
   \<and> (swapElements_store h arr i j = Inr (r, h') \<longrightarrow>
      take (length h) h' = h \<and> length h \<le> r \<and> r < length h'
      \<and> (\<exists>vs xs. array_at h arr = Some vs \<and> length xs = length vs
            \<and> array_at h' (VRef r)
                = Some (js_set VUndefined (js_set VUndefined xs i (js_get VUndefined xs j)) j
                          (js_get VUndefined xs i)))
      \<and> reach h' (VRef r) \<subseteq> {length h..<length h'})"
proof (intro conjI impI)
  assume "insertBefore_store h arr idx item = Inr (r, h')"
  then obtain h1 xs where c: "JSON_clone h arr = Inr (VRef r, h1)"
    "array_at h1 (VRef r) = Some xs" "h' = h1[r := OArr (splice_insert xs (max 0 idx) item)]"
    by (rule insertBefore_store_cases)
  have "(if max 0 idx < 0 then max 0 (int n + max 0 idx) else min (int n) (max 0 idx))
        = min (max 0 idx) (int n)" for n
    by simp
  with insert_store_result [OF c]
  show "take (length h) h' = h" "length h \<le> r" "r < length h'"
    "\<exists>vs xs. array_at h arr = Some vs \<and> length xs = length vs
       \<and> array_at h' (VRef r)
           = Some (inserted_at xs (nat (min (max 0 idx) (int (length vs)))) item)
       \<and> (\<forall>y \<in> set xs. reach h' y \<subseteq> {length h..<length h'})"
    "\<forall>a < length h. a \<in> reach h' (VRef r) \<longleftrightarrow> a \<in> reach h' item"
    by simp_all
next
  assume "insertAfter_store h arr idx item = Inr (r, h')"
  then obtain h1 xs vs where c: "JSON_clone h arr = Inr (VRef r, h1)"
    "array_at h1 (VRef r) = Some xs"
    and vs: "array_at h arr = Some vs"
    and h': "h' = h1[r := OArr (splice_insert xs (min (int (length vs)) (idx + 1)) item)]"
    by (rule insertAfter_store_position)
  have pos: "(if min (int n) (idx + 1) < 0 then max 0 (int n + min (int n) (idx + 1))
         else min (int n) (min (int n) (idx + 1)))
        = (if idx + 1 < 0 then max 0 (int n + (idx + 1)) else min (int n) (idx + 1))" for n
    by (simp add: min_def)
  from insert_store_result [OF c h'] vs
  show "take (length h) h' = h" "length h \<le> r" "r < length h'"
    "\<exists>vs xs. array_at h arr = Some vs \<and> length xs = length vs
       \<and> array_at h' (VRef r)
           = Some (inserted_at xs
               (nat (if idx + 1 < 0 then max 0 (int (length vs) + (idx + 1))
                     else min (int (length vs)) (idx + 1))) item)
       \<and> (\<forall>y \<in> set xs. reach h' y \<subseteq> {length h..<length h'})"
    "\<forall>a < length h. a \<in> reach h' (VRef r) \<longleftrightarrow> a \<in> reach h' item"
    by (simp_all add: pos)
next
  assume "swapElements_store h arr i j = Inr (r, h')"
  then obtain h1 xs where c: "JSON_clone h arr = Inr (VRef r, h1)"
    "array_at h1 (VRef r) = Some xs"
    and h': "h' = h1[r := OArr (js_set VUndefined (js_set VUndefined xs i (js_get VUndefined xs j))
                          j (js_get VUndefined xs i))]"
    by (rule swapElements_store_cases)
  from swap_store_result [OF c set_swapped h']
  show "take (length h) h' = h" "length h \<le> r" "r < length h'"
    "\<exists>vs xs. array_at h arr = Some vs \<and> length xs = length vs
       \<and> array_at h' (VRef r)
           = Some (js_set VUndefined (js_set VUndefined xs i (js_get VUndefined xs j)) j
                     (js_get VUndefined xs i))"
    "reach h' (VRef r) \<subseteq> {length h..<length h'}"
    by auto
qed

text \<open>
  Claim C8, as stated, fails where the item is an element of the input, as in
  \<^verbatim>\<open>insertBefore(arr, 0, arr[0])\<close>: the object at address 1 is element 0 of the input array
  and element 0 of the result.
\<close>

theorem insertBefore_store_shares_item_counterexample:
  "insertBefore_store [OArr [VRef 1], OObj [(''k'', VNum (Finite 1))]] (VRef 0) 0 (VRef 1)
     = Inr (3, [OArr [VRef 1], OObj [(''k'', VNum (Finite 1))],
                OObj [(''k'', VNum (Finite 1))], OArr [VRef 1, VRef 2]])
   \<and> 1 \<in> reach [OArr [VRef 1], OObj [(''k'', VNum (Finite 1))],
                  OObj [(''k'', VNum (Finite 1))], OArr [VRef 1, VRef 2]] (VRef 3)
   \<and> 1 \<in> reach [OArr [VRef 1], OObj [(''k'', VNum (Finite 1))]] (VRef 0)"
proof -
  let ?h = "[OArr [VRef 1], OObj [(''k'', VNum (Finite 1))]]"
  let ?h' = "[OArr [VRef 1], OObj [(''k'', VNum (Finite 1))],
              OObj [(''k'', VNum (Finite 1))], OArr [VRef 1, VRef 2]]"
  have run: "insertBefore_store ?h (VRef 0) 0 (VRef 1) = Inr (3, ?h')"
    by (simp add: insertBefore_store_def JSON_clone_def array_at_def splice_insert_def
          array_slot_def object_slot_def)
  have "3 \<in> reach ?h' (VRef 3)" by (rule reach.root) simp
  then have new: "1 \<in> reach ?h' (VRef 3)" by (rule reach.step) simp_all
  have "0 \<in> reach ?h (VRef 0)" by (rule reach.root) simp
  then have old: "1 \<in> reach ?h (VRef 0)" by (rule reach.step) simp_all
  from run new old show ?thesis by simp
qed

theorem array_helpers_copy_then_store_item_witness:
  "insertBefore_store
       [OArr [VRef 1], OObj [(''k'', VNum (Finite 1))], OObj [(''c'', VRef 3)], OArr []]
       (VRef 0) 0 (VRef 2)
     = Inr (5, [OArr [VRef 1], OObj [(''k'', VNum (Finite 1))], OObj [(''c'', VRef 3)], OArr [],
                OObj [(''k'', VNum (Finite 1))], OArr [VRef 2, VRef 4]])
   \<and> reach [OArr [VRef 1], OObj [(''k'', VNum (Finite 1))], OObj [(''c'', VRef 3)], OArr [],
             OObj [(''k'', VNum (Finite 1))], OArr [VRef 2, VRef 4]] (VRef 5) \<inter> {..<4} = {2, 3}
   \<and> insertAfter_store
       [OArr [VRef 1], OObj [(''k'', VNum (Finite 1))], OObj [(''c'', VRef 3)], OArr []]
       (VRef 0) 0 (VRef 2)
     = Inr (5, [OArr [VRef 1], OObj [(''k'', VNum (Finite 1))], OObj [(''c'', VRef 3)], OArr [],
                OObj [(''k'', VNum (Finite 1))], OArr [VRef 4, VRef 2]])
   \<and> reach [OArr [VRef 1], OObj [(''k'', VNum (Finite 1))], OObj [(''c'', VRef 3)], OArr [],
             OObj [(''k'', VNum (Finite 1))], OArr [VRef 4, VRef 2]] (VRef 5) \<inter> {..<4} = {2, 3}
   \<and> swapElements_store [OArr [VRef 1, VNull], OObj [(''k'', VNum (Finite 1))]] (VRef 0) 0 1
     = Inr (3, [OArr [VRef 1, VNull], OObj [(''k'', VNum (Finite 1))],
                OObj [(''k'', VNum (Finite 1))], OArr [VNull, VRef 2]])
   \<and> reach [OArr [VRef 1, VNull], OObj [(''k'', VNum (Finite 1))],
             OObj [(''k'', VNum (Finite 1))], OArr [VNull, VRef 2]] (VRef 3) \<inter> {..<2} = {}"
proof -
  let ?h = "[OArr [VRef 1], OObj [(''k'', VNum (Finite 1))], OObj [(''c'', VRef 3)], OArr []]"
  let ?b = "?h @ [OObj [(''k'', VNum (Finite 1))], OArr [VRef 2, VRef 4]]"
  let ?a = "?h @ [OObj [(''k'', VNum (Finite 1))], OArr [VRef 4, VRef 2]]"
  let ?g = "[OArr [VRef 1, VNull], OObj [(''k'', VNum (Finite 1))]]"
  let ?g' = "?g @ [OObj [(''k'', VNum (Finite 1))], OArr [VNull, VRef 2]]"
  have before: "insertBefore_store ?h (VRef 0) 0 (VRef 2) = Inr (5, ?b)"
    by (simp add: insertBefore_store_def JSON_clone_def array_at_def splice_insert_def
          array_slot_def object_slot_def)
  have after: "insertAfter_store ?h (VRef 0) 0 (VRef 2) = Inr (5, ?a)"
    by (simp add: insertAfter_store_def JSON_clone_def array_at_def splice_insert_def
          array_slot_def object_slot_def)
  have swap: "swapElements_store ?g (VRef 0) 0 1 = Inr (3, ?g')"
    by (simp add: swapElements_store_def JSON_clone_def array_at_def js_get_def js_set_def
          is_array_index_def array_slot_def object_slot_def)
  have item: "reach s (VRef 2) = {2, 3}"
    if s: "3 < length s" "s ! 2 = OObj [(''c'', VRef 3)]" "s ! 3 = OArr []" for s
  proof
    show "reach s (VRef 2) \<subseteq> {2, 3}"
    proof
      fix a
      assume "a \<in> reach s (VRef 2)"
      then show "a \<in> {2, 3}"
      proof (induction rule: reach.induct)
        case (root a)
        then show ?case by simp
      next
        case (step a b)
        with s show ?case by auto
      qed
    qed
    have "2 \<in> reach s (VRef 2)" by (rule reach.root) simp
    moreover from this have "3 \<in> reach s (VRef 2)" by (rule reach.step) (use s in simp_all)
    ultimately show "{2, 3} \<subseteq> reach s (VRef 2)" by simp
  qed
  note b = array_helpers_copy_then_store_item [where h = ?h and arr = "VRef 0" and idx = 0
      and item = "VRef 2" and r = 5 and h' = ?b, THEN conjunct1, rule_format, OF before]
  note a = array_helpers_copy_then_store_item [where h = ?h and arr = "VRef 0" and idx = 0
      and item = "VRef 2" and r = 5 and h' = ?a, THEN conjunct2, THEN conjunct1, rule_format,
      OF after]
  note g = array_helpers_copy_then_store_item [where h = ?g and arr = "VRef 0" and i = 0
      and j = 1 and r = 3 and h' = ?g', THEN conjunct2, THEN conjunct2, rule_format, OF swap]
  from b have "\<forall>a < 4. a \<in> reach ?b (VRef 5) \<longleftrightarrow> a \<in> reach ?b (VRef 2)" by simp
  moreover have "reach ?b (VRef 2) = {2, 3}" by (rule item) simp_all
  ultimately have shared_b: "reach ?b (VRef 5) \<inter> {..<4} = {2, 3}" by auto
  from a have "\<forall>a < 4. a \<in> reach ?a (VRef 5) \<longleftrightarrow> a \<in> reach ?a (VRef 2)" by simp
  moreover have "reach ?a (VRef 2) = {2, 3}" by (rule item) simp_all
  ultimately have shared_a: "reach ?a (VRef 5) \<inter> {..<4} = {2, 3}" by auto
  from g have "reach ?g' (VRef 3) \<subseteq> {length ?g..<length ?g'}" by (elim conjE)
  then have fresh_g: "reach ?g' (VRef 3) \<inter> {..<2} = {}" by auto
  from before shared_b after shared_a swap fresh_g show ?thesis by simp
qed


subsection \<open>The helpers on the store against the helpers on values\<close>

inductive_cases denotes_RefE: "denotes h (VRef a) t"
inductive_cases denotes_ArrE: "denotes h v (JArr ts)"


lemma denotes_functional: "denotes h v t \<Longrightarrow> denotes h v t' \<Longrightarrow> t = t'"
proof (induction arbitrary: t' rule: denotes.induct)
  case (array a vs ts)
  from array.prems array.hyps(1,2) obtain ts' where t': "t' = JArr ts'"
    and all: "list_all2 (denotes h) vs ts'"
    by (auto elim: denotes.cases)
  from array.IH all have "ts = ts'"
  proof (induction vs ts arbitrary: ts' rule: list_all2_induct)
    case Nil
    then show ?case by simp
  next
    case (Cons v vs t ts)
    then show ?case by (auto simp: list_all2_Cons1)
  qed
  with t' show ?case by simp
next
  case (object a fs fts)
  from object.prems object.hyps(1,2) obtain fts' where t': "t' = JObj fts'"
    and all: "list_all2 (\<lambda>kv kt. fst kv = fst kt \<and> denotes h (snd kv) (snd kt)) fs fts'"
    by (auto elim: denotes.cases)
  from object.IH all have "fts = fts'"
  proof (induction fs fts arbitrary: fts' rule: list_all2_induct)
    case Nil
    then show ?case by simp
  next
    case (Cons v vs t ts)
    then show ?case by (auto simp: list_all2_Cons1 prod_eq_iff)
  qed
  with t' show ?case by simp
qed (auto elim: denotes.cases)


lemma list_all2_left: "list_all2 P xs ys \<Longrightarrow> x \<in> set xs \<Longrightarrow> \<exists>y\<in>set ys. P x y"
  by (induction rule: list_all2_induct) auto

lemma size_element: "t \<in> set ts \<Longrightarrow> size t < size (JArr ts)"
  by (induction ts) auto

lemma size_field: "kt \<in> set fts \<Longrightarrow> size (snd kt) < size (JObj fts)"
  by (induction fts) auto

text \<open>What a stored object refers to denotes a strictly smaller tree.\<close>

lemma denotes_child:
  assumes "denotes h (VRef a) t" and "b \<in> refs_obj (h ! a)"
  shows "\<exists>t'. denotes h (VRef b) t' \<and> size t' < size t"
  using assms(1)
proof (rule denotes_RefE)
  assume "h ! a = OFun"
  with assms(2) show ?thesis by simp
next
  fix vs ts
  assume t: "t = JArr ts" and vs: "h ! a = OArr vs" and all: "list_all2 (denotes h) vs ts"
  from assms(2) vs have "VRef b \<in> set vs" by (auto simp: refs_val_iff)
  with all obtain t' where "t' \<in> set ts" "denotes h (VRef b) t'"
    by (auto dest: list_all2_left)
  with t size_element [of t' ts] show ?thesis by blast
next
  fix fs fts
  assume t: "t = JObj fts" and fs: "h ! a = OObj fs"
    and all: "list_all2 (\<lambda>kv kt. fst kv = fst kt \<and> denotes h (snd kv) (snd kt)) fs fts"
  from assms(2) fs obtain kv where "kv \<in> set fs" "snd kv = VRef b"
    by (auto simp: refs_val_iff)
  with all obtain kt where "kt \<in> set fts" "denotes h (VRef b) (snd kt)"
    by (auto dest: list_all2_left)
  with t size_field [of kt fts] show ?thesis by blast
qed

lemma denotes_reach:
  assumes "denotes h v t" and "b \<in> reach h v"
  shows "\<exists>t'. denotes h (VRef b) t' \<and> size t' \<le> size t"
  using assms(2)
proof (induction rule: reach.induct)
  case (root b)
  then have "v = VRef b" by (simp add: refs_val_iff)
  with assms(1) show ?case by auto
next
  case (step a b)
  then obtain t1 where "denotes h (VRef a) t1" "size t1 \<le> size t" by blast
  with denotes_child [OF this(1) step.hyps(3)] show ?case by fastforce
qed

lemma denotes_in_store: "denotes h (VRef a) t \<Longrightarrow> a < length h"
  by (auto elim: denotes_RefE)

lemma denotes_reach_in_store:
  "denotes h v t \<Longrightarrow> b \<in> reach h v \<Longrightarrow> b < length h"
  using denotes_reach denotes_in_store by blast

text \<open>No object that denotes a tree is reachable from what it refers to.\<close>

lemma denotes_acyclic:
  assumes "denotes h (VRef a) t" and "b \<in> refs_obj (h ! a)"
  shows "a \<notin> reach h (VRef b)"
proof
  assume "a \<in> reach h (VRef b)"
  from denotes_child [OF assms] obtain tb where
    tb: "denotes h (VRef b) tb" "size tb < size t" by blast
  from denotes_reach [OF tb(1) \<open>a \<in> reach h (VRef b)\<close>] obtain t' where
    "denotes h (VRef a) t'" "size t' \<le> size tb" by blast
  with assms(1) have "size t \<le> size tb" by (auto dest: denotes_functional)
  with tb(2) show False by simp
qed

lemma denotes_not_below:
  assumes "denotes h (VRef a) t" "denotes h v tv" "size tv < size t"
  shows "a \<notin> reach h v"
proof
  assume "a \<in> reach h v"
  from denotes_reach [OF assms(2) this] obtain t' where
    "denotes h (VRef a) t'" "size t' \<le> size tv" by blast
  with assms(1) have "size t \<le> size tv" by (auto dest: denotes_functional)
  with assms(3) show False by simp
qed

lemma collect_map:
  "list_all2 (\<lambda>v t. f v = Inr (g t)) vs ts \<Longrightarrow> collect (map f vs) = Inr (map g ts)"
  by (induction rule: list_all2_induct) simp_all

lemma map2_fields:
  "map2 object_slot (map fst fts) (map (\<lambda>kt. JSON_stringify (snd kt)) fts)
     = map (\<lambda>kv. object_slot (fst kv) (JSON_stringify (snd kv))) fts"
  by (induction fts) simp_all

text \<open>On a value that denotes a tree, \<open>serialize\<close> writes what \<open>JSON_stringify\<close> writes.\<close>

lemma serialize_denotes:
  "denotes h v t \<Longrightarrow> reach h v \<inter> set stack = {} \<Longrightarrow>
   serialize h stack v = Inr (JSON_stringify t)"
proof (induction arbitrary: stack rule: denotes.induct)
  case (func a)
  have "a \<in> reach h (VRef a)" by (rule reach.root) simp
  with func show ?case by auto
next
  case (array a vs ts)
  have self: "a \<in> reach h (VRef a)" by (rule reach.root) simp
  with array.prems have fresh: "a \<notin> set stack" by auto
  have whole: "denotes h (VRef a) (JArr ts)"
    using array.hyps(1,2) list_all2_mono [OF array.IH] by (intro denotes.array) auto
  have "list_all2 (\<lambda>v t. serialize h (a # stack) v = Inr (JSON_stringify t)) vs ts"
    using array.IH
  proof (rule list.rel_mono_strong)
    fix v t
    assume v: "v \<in> set vs" and t: "t \<in> set ts"
      and ih: "denotes h v t \<and> (\<forall>x. reach h v \<inter> set x = {} \<longrightarrow>
                 serialize h x v = Inr (JSON_stringify t))"
    from whole ih t have "a \<notin> reach h v"
      by (intro denotes_not_below [where t = "JArr ts" and tv = t]) (auto dest: size_element)
    moreover have "reach h v \<subseteq> reach h (VRef a)"
      using reach_element [OF array.hyps(1) v array.hyps(2)] by auto
    ultimately have "reach h v \<inter> set (a # stack) = {}" using array.prems by auto
    with ih show "serialize h (a # stack) v = Inr (JSON_stringify t)" by blast
  qed
  then have "collect (map (serialize h (a # stack)) vs) = Inr (map JSON_stringify ts)"
    by (rule collect_map)
  with fresh array.hyps(1,2) show ?case by (simp add: comp_def)
next
  case (object a fs fts)
  have self: "a \<in> reach h (VRef a)" by (rule reach.root) simp
  with object.prems have fresh: "a \<notin> set stack" by auto
  have whole: "denotes h (VRef a) (JObj fts)"
    using object.hyps(1,2) list_all2_mono [OF object.IH] by (intro denotes.object) auto
  have keys: "map fst fs = map fst fts"
    using object.IH by (induction rule: list_all2_induct) auto
  have "list_all2 (\<lambda>kv kt. serialize h (a # stack) (snd kv) = Inr (JSON_stringify (snd kt)))
          fs fts"
    using object.IH
  proof (rule list.rel_mono_strong)
    fix kv kt
    assume kv: "kv \<in> set fs" and kt: "kt \<in> set fts"
      and ih: "fst kv = fst kt \<and> denotes h (snd kv) (snd kt) \<and>
                 (\<forall>x. reach h (snd kv) \<inter> set x = {} \<longrightarrow>
                    serialize h x (snd kv) = Inr (JSON_stringify (snd kt)))"
    from whole ih kt have "a \<notin> reach h (snd kv)"
      by (intro denotes_not_below [where t = "JObj fts" and tv = "snd kt"])
         (auto dest: size_field)
    moreover have "reach h (snd kv) \<subseteq> reach h (VRef a)"
      using reach_field [OF object.hyps(1) kv object.hyps(2)] by auto
    ultimately have "reach h (snd kv) \<inter> set (a # stack) = {}" using object.prems by auto
    with ih show "serialize h (a # stack) (snd kv) = Inr (JSON_stringify (snd kt))" by blast
  qed
  then have "collect (map (\<lambda>kv. serialize h (a # stack) (snd kv)) fs)
             = Inr (map (\<lambda>kt. JSON_stringify (snd kt)) fts)"
    by (rule collect_map)
  with fresh object.hyps(1,2) keys show ?case by (simp add: map2_fields)
qed simp_all


lemma denotes_extend:
  assumes "denotes h v t" and "length h \<le> length h'" and "take (length h) h' = h"
  shows "denotes h' v t"
  using assms(1)
proof (induction rule: denotes.induct)
  case (func a)
  with assms(2,3) have "a < length h'" "h' ! a = OFun" by (auto dest: nth_take [of a "length h" h'])
  then show ?case by (rule denotes.func)
next
  case (array a vs ts)
  with assms(2,3) have "a < length h'" "h' ! a = OArr vs"
    by (auto dest: nth_take [of a "length h" h'])
  moreover from array.IH have "list_all2 (denotes h') vs ts" by (rule list_all2_mono) simp
  ultimately show ?case by (rule denotes.array)
next
  case (object a fs fts)
  with assms(2,3) have "a < length h'" "h' ! a = OObj fs"
    by (auto dest: nth_take [of a "length h" h'])
  moreover from object.IH
  have "list_all2 (\<lambda>kv kt. fst kv = fst kt \<and> denotes h' (snd kv) (snd kt)) fs fts"
    by (rule list_all2_mono) simp
  ultimately show ?case by (rule denotes.object)
qed (auto intro: denotes.intros)

lemma denotes_fresh_extension:
  "denotes h v t \<Longrightarrow> fresh_extension h h' \<Longrightarrow> denotes h' v t"
  by (auto simp: fresh_extension_def intro: denotes_extend)

text \<open>The value \<open>materialize\<close> allocates for a JSON text denotes the tree \<open>JSON_parse\<close>
  gives for it.\<close>

lemma materialize_denotes:
  "materialize j h = (v, h') \<Longrightarrow> denotes h' v (JSON_parse j)"
  "materialize_list js h = (vs, h') \<Longrightarrow> list_all2 (denotes h') vs (map JSON_parse js)"
  "materialize_fields fs h = (kvs, h') \<Longrightarrow>
     list_all2 (\<lambda>kv kt. fst kv = fst kt \<and> denotes h' (snd kv) (snd kt)) kvs
       (map (\<lambda>kj. (fst kj, JSON_parse (snd kj))) fs)"
proof (induction j h and js h and fs h arbitrary: v h' and vs h' and kvs h'
       rule: materialize_materialize_list_materialize_fields.induct)
  case (5 js h)
  obtain xs h1 where m: "materialize_list js h = (xs, h1)" by (cases "materialize_list js h")
  from 5(2) m have v: "v = VRef (length h1)" and h': "h' = h1 @ [OArr xs]" by simp_all
  from 5(1) [OF m] have "list_all2 (denotes h1) xs (map JSON_parse js)" .
  then have "list_all2 (denotes h') xs (map JSON_parse js)"
    by (rule list_all2_mono) (auto simp: h' intro: denotes_extend)
  then have "denotes (h1 @ [OArr xs]) (VRef (length h1)) (JArr (map JSON_parse js))"
    unfolding h' by (intro denotes.array [where vs = xs]) simp_all
  then show ?case by (simp add: v h')
next
  case (6 fs h)
  obtain xs h1 where m: "materialize_fields fs h = (xs, h1)" by (cases "materialize_fields fs h")
  from 6(2) m have v: "v = VRef (length h1)" and h': "h' = h1 @ [OObj xs]" by simp_all
  from 6(1) [OF m]
  have "list_all2 (\<lambda>kv kt. fst kv = fst kt \<and> denotes h1 (snd kv) (snd kt)) xs
          (map (\<lambda>kj. (fst kj, JSON_parse (snd kj))) fs)" .
  then have "list_all2 (\<lambda>kv kt. fst kv = fst kt \<and> denotes h' (snd kv) (snd kt)) xs
          (map (\<lambda>kj. (fst kj, JSON_parse (snd kj))) fs)"
    by (rule list_all2_mono) (auto simp: h' intro: denotes_extend)
  then have "denotes (h1 @ [OObj xs]) (VRef (length h1))
               (JObj (map (\<lambda>kj. (fst kj, JSON_parse (snd kj))) fs))"
    unfolding h' by (intro denotes.object [where fs = xs]) simp_all
  then show ?case by (simp add: v h')
next
  case (8 j js h)
  obtain x h1 where m1: "materialize j h = (x, h1)" by (cases "materialize j h")
  obtain xs h2 where m2: "materialize_list js h1 = (xs, h2)" by (cases "materialize_list js h1")
  from 8(3) m1 m2 have vs: "vs = x # xs" and h': "h' = h2" by simp_all
  from materialize_fresh(2) [OF m2] have "fresh_extension h1 h2" by simp
  with 8(1) [OF m1] have "denotes h2 x (JSON_parse j)" by (rule denotes_fresh_extension)
  with 8(2) [OF m1 [symmetric] m2] show ?case by (simp add: vs h')
next
  case (10 kj fs h)
  obtain x h1 where m1: "materialize (snd kj) h = (x, h1)" by (cases "materialize (snd kj) h")
  obtain xs h2 where m2: "materialize_fields fs h1 = (xs, h2)"
    by (cases "materialize_fields fs h1")
  from 10(3) m1 m2 have kvs: "kvs = (fst kj, x) # xs" and h': "h' = h2" by simp_all
  from materialize_fresh(3) [OF m2] have "fresh_extension h1 h2" by simp
  with 10(1) [OF m1] have "denotes h2 x (JSON_parse (snd kj))" by (rule denotes_fresh_extension)
  with 10(2) [OF m1 [symmetric] m2] show ?case by (simp add: kvs h')
qed (auto intro: denotes.intros)


lemma denotes_update:
  "denotes h v t \<Longrightarrow> r \<notin> reach h v \<Longrightarrow> denotes (h[r := ob]) v t"
proof (induction rule: denotes.induct)
  case (func a)
  have "a \<in> reach h (VRef a)" by (rule reach.root) simp
  with func.prems have "a \<noteq> r" by auto
  with func.hyps have "a < length (h[r := ob])" "h[r := ob] ! a = OFun" by simp_all
  then show ?case by (rule denotes.func)
next
  case (array a vs ts)
  have "a \<in> reach h (VRef a)" by (rule reach.root) simp
  with array.prems have "a \<noteq> r" by auto
  with array.hyps have "a < length (h[r := ob])" "h[r := ob] ! a = OArr vs" by simp_all
  moreover have "list_all2 (denotes (h[r := ob])) vs ts"
    using array.IH
  proof (rule list.rel_mono_strong)
    fix v t
    assume "v \<in> set vs" and ih: "denotes h v t \<and> (r \<notin> reach h v \<longrightarrow> denotes (h[r := ob]) v t)"
    with reach_element [OF array.hyps(1) this(1) array.hyps(2)] array.prems
    show "denotes (h[r := ob]) v t" by blast
  qed
  ultimately show ?case by (rule denotes.array)
next
  case (object a fs fts)
  have "a \<in> reach h (VRef a)" by (rule reach.root) simp
  with object.prems have "a \<noteq> r" by auto
  with object.hyps have "a < length (h[r := ob])" "h[r := ob] ! a = OObj fs" by simp_all
  moreover have "list_all2 (\<lambda>kv kt. fst kv = fst kt \<and> denotes (h[r := ob]) (snd kv) (snd kt))
                   fs fts"
    using object.IH
  proof (rule list.rel_mono_strong)
    fix kv kt
    assume "kv \<in> set fs"
      and ih: "fst kv = fst kt \<and> denotes h (snd kv) (snd kt)
               \<and> (r \<notin> reach h (snd kv) \<longrightarrow> denotes (h[r := ob]) (snd kv) (snd kt))"
    with reach_field [OF object.hyps(1) this(1) object.hyps(2)] object.prems
    show "fst kv = fst kt \<and> denotes (h[r := ob]) (snd kv) (snd kt)" by blast
  qed
  ultimately show ?case by (rule denotes.object)
qed (auto intro: denotes.intros)

lemma denotes_updated_array:
  assumes "list_all2 (denotes h1) ys ts" and "\<And>y. y \<in> set ys \<Longrightarrow> r \<notin> reach h1 y"
    and "r < length h1"
  shows "denotes (h1[r := OArr ys]) (VRef r) (JArr ts)"
proof -
  have "list_all2 (denotes (h1[r := OArr ys])) ys ts"
    using assms(1)
  proof (rule list.rel_mono_strong)
    fix y t
    assume "y \<in> set ys" "denotes h1 y t"
    with assms(2) show "denotes (h1[r := OArr ys]) y t" by (intro denotes_update)
  qed
  with assms(3) show ?thesis by (intro denotes.array [where vs = ys]) simp_all
qed

lemma reach_extension:
  assumes "denotes h v t" and "fresh_extension h h1" and "b \<in> reach h1 v"
  shows "b \<in> reach h v"
  using assms(3)
proof (induction rule: reach.induct)
  case (root b)
  then show ?case by (rule reach.root)
next
  case (step a b)
  from denotes_reach_in_store [OF assms(1) step.IH] have a: "a < length h" .
  with assms(2) have "h1 ! a = h ! a"
    by (metis fresh_extension_def nth_take)
  with step.IH a step.hyps(3) show ?case by (auto intro: reach.step)
qed

text \<open>The round trip of an array that denotes a tree.\<close>

lemma JSON_clone_array:
  assumes "denotes h arr (JArr s)"
  obtains r h1 xs where "JSON_clone h arr = Inr (VRef r, h1)"
    and "array_at h1 (VRef r) = Some xs" and "list_all2 (denotes h1) xs (JSON_copy s)"
    and "fresh_extension h h1" and "length h \<le> r" and "r < length h1"
    and "\<And>y. y \<in> set xs \<Longrightarrow> r \<notin> reach h1 y"
proof -
  let ?j = "TArray (map (\<lambda>v. array_slot (JSON_stringify v)) s)"
  have "reach h arr \<inter> set [] = {}" by simp
  from serialize_denotes [OF assms this] have ser: "serialize h [] arr = Inr (Some ?j)"
    by simp
  obtain v h1 where mat: "materialize ?j h = (v, h1)" by (cases "materialize ?j h")
  with ser have clone: "JSON_clone h arr = Inr (v, h1)" by (simp add: JSON_clone_def)
  have "JSON_parse ?j = JArr (JSON_copy s)" using JSON_roundtrip_array [of s] by simp
  with materialize_denotes(1) [OF mat] have den: "denotes h1 v (JArr (JSON_copy s))"
    by simp
  then obtain r xs where v: "v = VRef r" and r: "r < length h1" and xs: "h1 ! r = OArr xs"
    and all: "list_all2 (denotes h1) xs (JSON_copy s)"
    by (rule denotes_ArrE)
  from JSON_clone_fresh [OF clone] v have ext: "fresh_extension h h1" and low: "length h \<le> r"
    by simp_all
  have "r \<notin> reach h1 y" if "y \<in> set xs" for y
  proof -
    from list_all2_left [OF all that] obtain t where "t \<in> set (JSON_copy s)" "denotes h1 y t"
      by blast
    with den v show ?thesis
      by (intro denotes_not_below [where t = "JArr (JSON_copy s)" and tv = t])
         (auto dest: size_element)
  qed
  with clone v r xs all ext low show ?thesis by (intro that) (simp_all add: array_at_def)
qed

lemma item_not_fresh:
  assumes "denotes h item x" and "fresh_extension h h1" and "length h \<le> r"
  shows "r \<notin> reach h1 item"
proof
  assume "r \<in> reach h1 item"
  with assms(1,2) have "r \<in> reach h item" by (rule reach_extension)
  with assms(1) have "r < length h" by (rule denotes_reach_in_store)
  with assms(3) show False by simp
qed

lemma splice_insert_related:
  assumes "list_all2 P xs cs" and "P item x"
  shows "list_all2 P (splice_insert xs k item) (splice_insert cs k x)"
proof -
  from assms(1) have "length xs = length cs" by (rule list_all2_lengthD)
  with assms show ?thesis
    by (auto simp: splice_insert_def Let_def
          intro!: list_all2_appendI list_all2_takeI list_all2_dropI)
qed

lemma js_get_related:
  assumes "list_all2 P xs cs" and "P u u'"
  shows "P (js_get u xs i) (js_get u' cs i)"
  using assms
  by (auto simp: js_get_def is_array_index_def dest: list_all2_lengthD intro: list_all2_nthD)

lemma js_set_related:
  assumes "list_all2 P xs cs" and "P u u'" and "P v v'"
  shows "list_all2 P (js_set u xs i v) (js_set u' cs i v')"
proof -
  from assms(1) have "length xs = length cs" by (rule list_all2_lengthD)
  moreover from assms(2) have "list_all2 P (replicate n u) (replicate n u')" for n
    by (induction n) simp_all
  ultimately show ?thesis using assms
    by (auto simp: js_set_def intro!: list_all2_appendI list_all2_update_cong)
qed


text \<open>
  The helpers on the store compute what the helpers on trees compute: where the array
  and the item denote trees (so the array is not cyclic), the helper returns, and the
  array it returns denotes the result of the helper on the trees.
\<close>

theorem insertBefore_store_refines:
  assumes "denotes h arr (JArr s)" and "denotes h item x"
  shows "\<exists>r h'. insertBefore_store h arr idx item = Inr (r, h')
           \<and> denotes h' (VRef r) (JArr (insertBefore s idx x))"
proof -
  from assms(1) obtain r h1 xs where clone: "JSON_clone h arr = Inr (VRef r, h1)"
    and xs: "array_at h1 (VRef r) = Some xs" and all: "list_all2 (denotes h1) xs (JSON_copy s)"
    and ext: "fresh_extension h h1" and r: "length h \<le> r" "r < length h1"
    and below: "\<And>y. y \<in> set xs \<Longrightarrow> r \<notin> reach h1 y"
    by (rule JSON_clone_array) blast
  let ?k = "max 0 idx"
  let ?ys = "splice_insert xs ?k item"
  from assms(2) ext have item: "denotes h1 item x" by (rule denotes_fresh_extension)
  from all item have "list_all2 (denotes h1) ?ys (splice_insert (JSON_copy s) ?k x)"
    by (rule splice_insert_related)
  moreover have "r \<notin> reach h1 y" if "y \<in> set ?ys" for y
    using that below item_not_fresh [OF assms(2) ext r(1)] by (auto simp: set_splice_insert)
  ultimately have "denotes (h1[r := OArr ?ys]) (VRef r) (JArr (splice_insert (JSON_copy s) ?k x))"
    using r(2) by (rule denotes_updated_array)
  moreover from clone xs have "insertBefore_store h arr idx item = Inr (r, h1[r := OArr ?ys])"
    by (simp add: insertBefore_store_def)
  ultimately show ?thesis by (simp add: insertBefore_def)
qed

theorem insertAfter_store_refines:
  assumes "denotes h arr (JArr s)" and "denotes h item x"
  shows "\<exists>r h'. insertAfter_store h arr idx item = Inr (r, h')
           \<and> denotes h' (VRef r) (JArr (insertAfter s idx x))"
proof -
  from assms(1) obtain r h1 xs where clone: "JSON_clone h arr = Inr (VRef r, h1)"
    and xs: "array_at h1 (VRef r) = Some xs" and all: "list_all2 (denotes h1) xs (JSON_copy s)"
    and ext: "fresh_extension h h1" and r: "length h \<le> r" "r < length h1"
    and below: "\<And>y. y \<in> set xs \<Longrightarrow> r \<notin> reach h1 y"
    by (rule JSON_clone_array) blast
  from assms(1) obtain vs where vs: "array_at h arr = Some vs" and len: "length vs = length s"
    by (auto elim!: denotes_ArrE simp: array_at_def dest: list_all2_lengthD)
  let ?k = "min (int (length s)) (idx + 1)"
  let ?ys = "splice_insert xs ?k item"
  from assms(2) ext have item: "denotes h1 item x" by (rule denotes_fresh_extension)
  from all item have "list_all2 (denotes h1) ?ys (splice_insert (JSON_copy s) ?k x)"
    by (rule splice_insert_related)
  moreover have "r \<notin> reach h1 y" if "y \<in> set ?ys" for y
    using that below item_not_fresh [OF assms(2) ext r(1)] by (auto simp: set_splice_insert)
  ultimately have "denotes (h1[r := OArr ?ys]) (VRef r) (JArr (splice_insert (JSON_copy s) ?k x))"
    using r(2) by (rule denotes_updated_array)
  moreover from clone xs vs len
  have "insertAfter_store h arr idx item = Inr (r, h1[r := OArr ?ys])"
    by (simp add: insertAfter_store_def)
  ultimately show ?thesis by (simp add: insertAfter_def)
qed

theorem swapElements_store_refines:
  assumes "denotes h arr (JArr s)"
  shows "\<exists>r h'. swapElements_store h arr i j = Inr (r, h')
           \<and> denotes h' (VRef r) (JArr (swapElements s i j))"
proof -
  from assms(1) obtain r h1 xs where clone: "JSON_clone h arr = Inr (VRef r, h1)"
    and xs: "array_at h1 (VRef r) = Some xs" and all: "list_all2 (denotes h1) xs (JSON_copy s)"
    and ext: "fresh_extension h h1" and r: "length h \<le> r" "r < length h1"
    and below: "\<And>y. y \<in> set xs \<Longrightarrow> r \<notin> reach h1 y"
    by (rule JSON_clone_array) blast
  let ?c = "JSON_copy s"
  let ?ys = "js_set VUndefined (js_set VUndefined xs i (js_get VUndefined xs j)) j
               (js_get VUndefined xs i)"
  let ?ts = "js_set JUndefined (js_set JUndefined ?c i (js_get JUndefined ?c j)) j
               (js_get JUndefined ?c i)"
  note u = denotes.undefined [of h1]
  have gi: "denotes h1 (js_get VUndefined xs i) (js_get JUndefined ?c i)"
    using all u by (rule js_get_related)
  have gj: "denotes h1 (js_get VUndefined xs j) (js_get JUndefined ?c j)"
    using all u by (rule js_get_related)
  from all u gj have "list_all2 (denotes h1) (js_set VUndefined xs i (js_get VUndefined xs j))
      (js_set JUndefined ?c i (js_get JUndefined ?c j))"
    by (rule js_set_related)
  from this u gi have "list_all2 (denotes h1) ?ys ?ts"
    by (rule js_set_related)
  moreover have "r \<notin> reach h1 y" if "y \<in> set ?ys" for y
  proof -
    from that set_swapped [of VUndefined xs i j] have "y = VUndefined \<or> y \<in> set xs" by auto
    then show ?thesis using below by (auto dest: reach_from_ref)
  qed
  ultimately have "denotes (h1[r := OArr ?ys]) (VRef r) (JArr ?ts)"
    using r(2) by (rule denotes_updated_array)
  moreover from clone xs have "swapElements_store h arr i j = Inr (r, h1[r := OArr ?ys])"
    by (simp add: swapElements_store_def Let_def)
  ultimately show ?thesis by (simp add: swapElements_def Let_def)
qed

end
